theory Spec2Isabelle
  imports Complex_Main "HOL-Library.Sublist"
begin

section \<open>JavaScript values used by the SSHarbor core\<close>

text \<open>
  A JavaScript string is a sequence of UTF-16 code units. The embedding writes a string
  as a \<^typ>\<open>string\<close> whose characters are the code units below 256, so every
  statement below is about strings of such code units. Regular expressions without the
  \<open>u\<close> flag, \<open>trim\<close>, \<open>includes\<close> and \<open>replace\<close> all work code unit by code unit.
\<close>

abbreviation NL :: char where "NL \<equiv> CHR 0x0A"
abbreviation CR :: char where "CR \<equiv> CHR 0x0D"

definition isDigit :: "char \<Rightarrow> bool" where
  "isDigit c = (c \<in> set ''0123456789'')"

definition isLower :: "char \<Rightarrow> bool" where
  "isLower c = (c \<in> set ''abcdefghijklmnopqrstuvwxyz'')"

definition isUpper :: "char \<Rightarrow> bool" where
  "isUpper c = (c \<in> set ''ABCDEFGHIJKLMNOPQRSTUVWXYZ'')"

text \<open>The class \<open>[a-zA-Z0-9]\<close>.\<close>

definition isAlnum :: "char \<Rightarrow> bool" where
  "isAlnum c = (isLower c \<or> isUpper c \<or> isDigit c)"

text \<open>
  White space as \<open>trim\<close>, \<open>trimEnd\<close> and \<open>parseInt\<close> strip it (WhiteSpace and
  LineTerminator of ECMAScript): TAB, LF, VT, FF, CR, SP and NBSP among the code units
  below 256.
\<close>

definition isWhiteSpace :: "char \<Rightarrow> bool" where
  "isWhiteSpace c = (c \<in> set [CHR 0x09, NL, CHR 0x0B, CHR 0x0C, CR, CHR 0x20, CHR 0xA0])"

text \<open>A line terminator, where \<open>^\<close> and \<open>$\<close> of a regular expression with the \<open>m\<close> flag match.\<close>

definition isLineTerminator :: "char \<Rightarrow> bool" where
  "isLineTerminator c = (c = NL \<or> c = CR)"

definition trimStart :: "string \<Rightarrow> string" where
  "trimStart s = dropWhile isWhiteSpace s"

definition trimEnd :: "string \<Rightarrow> string" where
  "trimEnd s = rev (dropWhile isWhiteSpace (rev s))"

definition trim :: "string \<Rightarrow> string" where
  "trim s = trimEnd (trimStart s)"

text \<open>\<open>Array.prototype.join\<close> on an array of strings.\<close>

fun join :: "string \<Rightarrow> string list \<Rightarrow> string" where
  "join sep [] = []"
| "join sep [x] = x"
| "join sep (x # y # ys) = x @ sep @ join sep (y # ys)"

subsection \<open>Numbers\<close>

text \<open>
  A JavaScript number is \<open>NaN\<close>, an infinity or a finite double; every finite double is a
  rational, and the comparisons \<open><\<close>, \<open><=\<close> of two numbers compare these rationals exactly.
\<close>

datatype jsnum = NaN | NegInf | PosInf | Fin rat

definition isNaN :: "jsnum \<Rightarrow> bool" where
  "isNaN p = (p = NaN)"

fun js_less :: "jsnum \<Rightarrow> jsnum \<Rightarrow> bool" where
  "js_less NaN _ = False"
| "js_less _ NaN = False"
| "js_less (Fin a) (Fin b) = (a < b)"
| "js_less NegInf NegInf = False"
| "js_less NegInf _ = True"
| "js_less _ NegInf = False"
| "js_less PosInf _ = False"
| "js_less _ PosInf = True"

fun js_le :: "jsnum \<Rightarrow> jsnum \<Rightarrow> bool" where
  "js_le NaN _ = False"
| "js_le _ NaN = False"
| "js_le a b = (\<not> js_less b a)"

text \<open>The value of a string of decimal digits.\<close>

definition digitVal :: "char \<Rightarrow> nat" where
  "digitVal c = of_char c - 48"

definition digitsValue :: "string \<Rightarrow> int" where
  "digitsValue ds = foldl (\<lambda>a c. 10 * a + int (digitVal c)) 0 ds"

text \<open>
  The number value of an integer. A double has 53 significant bits: an integer below
  \<open>2^53\<close> in magnitude is a double, and a larger one is rounded to the nearest multiple of
  its unit in the last place, \<open>2 ^ ulpExp n\<close>, a tie going to the even multiple; from
  \<open>2^1024\<close> on the result is an infinity, written \<open>None\<close>. \<open>toDouble\<close> is applied to
  the magnitude.
\<close>

function ulpExp :: "int \<Rightarrow> nat" where
  "ulpExp n = (if n < 2 ^ 53 then 0 else Suc (ulpExp (n div 2)))"
  by pat_completeness auto
termination
  by (relation "measure nat") auto

declare ulpExp.simps [simp del]

definition toDouble :: "int \<Rightarrow> int option" where
  "toDouble n =
     (let e = ulpExp n; q = n div 2 ^ e; r = n mod 2 ^ e;
          q' = (if 2 ^ e < 2 * r \<or> (2 * r = 2 ^ e \<and> odd q) then q + 1 else q)
      in if q' * 2 ^ e < 2 ^ 1024 then Some (q' * 2 ^ e) else None)"

text \<open>An integer that is a number of JavaScript as it stands.\<close>

definition isDouble :: "int \<Rightarrow> bool" where
  "isDouble i = (toDouble \<bar>i\<bar> = Some \<bar>i\<bar>)"

definition ofInt :: "int \<Rightarrow> jsnum" where
  "ofInt i = Fin (of_int i)"

definition toNumber :: "int \<Rightarrow> jsnum" where
  "toNumber i =
     (case toDouble \<bar>i\<bar> of
        None \<Rightarrow> if i < 0 then NegInf else PosInf
      | Some x \<Rightarrow> ofInt (if i < 0 then - x else x))"

text \<open>
  \<open>parseInt(string, 10)\<close>: leading white space is stripped, one sign is read, and the
  longest run of decimal digits that follows is the value; whatever follows the digits is
  ignored, and with radix 10 no \<open>0x\<close> prefix is stripped. \<open>mathInt\<close> is the integer
  read, \<open>None\<close> when there is no digit; \<open>parseInt\<close> returns \<open>NaN\<close> then, and otherwise
  the number value of the integer. (The zeros \<open>+0\<close> and \<open>-0\<close> are the one value
  \<open>Fin 0\<close>: they compare alike and print alike.)
\<close>

definition mathInt :: "string \<Rightarrow> int option" where
  "mathInt s =
     (let S = trimStart s;
          neg = (case S of [] \<Rightarrow> False | c # _ \<Rightarrow> c = CHR ''-'');
          S' = (case S of [] \<Rightarrow> S
                | c # r \<Rightarrow> if c = CHR ''+'' \<or> c = CHR ''-'' then r else S);
          Z = takeWhile isDigit S'
      in if Z = [] then None
         else Some ((if neg then - 1 else 1) * digitsValue Z))"

definition parseInt :: "string \<Rightarrow> jsnum" where
  "parseInt s = (case mathInt s of None \<Rightarrow> NaN | Some i \<Rightarrow> toNumber i)"

text \<open>
  \<open>String(n)\<close>, and \<open>n\<close> interpolated in a template, for an integer-valued number \<open>n\<close>,
  given as an integer and read as its number value. Below \<open>2^53\<close> the decimal digits of
  the integer are printed. From there on JavaScript prints the shortest digits that still
  denote the same double, the nearest to it among these: \<open>shortest\<close> looks for them with
  more and more significant digits, \<open>bestAt x p\<close> trying the two multiples of the power of
  ten \<open>p\<close> around \<open>x\<close>. The digits are printed in full, padded with zeros, when there are
  at most 21 of them, and as \<open>d.ddde+n\<close> otherwise; an infinity prints as \<open>Infinity\<close>.
\<close>

definition digitChar :: "nat \<Rightarrow> char" where
  "digitChar d = ''0123456789'' ! d"

text \<open>The decimal digits of an integer that is not negative.\<close>

function decimalDigits :: "int \<Rightarrow> string" where
  "decimalDigits n =
     (if n < 10 then [digitChar (nat n)]
      else decimalDigits (n div 10) @ [digitChar (nat (n mod 10))])"
  by pat_completeness auto
termination
  by (relation "measure nat") auto

declare decimalDigits.simps [simp del]

definition bestAt :: "int \<Rightarrow> int \<Rightarrow> int option" where
  "bestAt x p =
     (let lo = (x div p) * p; hi = lo + p;
          okLo = (toDouble lo = Some x); okHi = (toDouble hi = Some x)
      in if okLo \<and> okHi then Some (if x - lo \<le> hi - x then lo else hi)
         else if okLo then Some lo
         else if okHi then Some hi
         else None)"

fun shortestFrom :: "int \<Rightarrow> nat \<Rightarrow> int" where
  "shortestFrom x 0 = x"
| "shortestFrom x (Suc j) =
     (case bestAt x (10 ^ Suc j) of Some c \<Rightarrow> c | None \<Rightarrow> shortestFrom x j)"

definition shortest :: "int \<Rightarrow> int" where
  "shortest x = shortestFrom x (length (decimalDigits x) - 1)"

definition stripZeros :: "string \<Rightarrow> string" where
  "stripZeros s = rev (dropWhile (\<lambda>c. c = CHR ''0'') (rev s))"

definition formatDigits :: "int \<Rightarrow> string" where
  "formatDigits c =
     (let ds = decimalDigits c; n = length ds
      in if n \<le> 21 then ds
         else (case stripZeros ds of
                 [] \<Rightarrow> []
               | [d] \<Rightarrow> [d]
               | d # fs \<Rightarrow> d # CHR ''.'' # fs) @ ''e+'' @ decimalDigits (int (n - 1)))"

definition numToString :: "int \<Rightarrow> string" where
  "numToString i =
     (if i < 0 then ''-'' else []) @
     (case toDouble \<bar>i\<bar> of
        None \<Rightarrow> ''Infinity''
      | Some x \<Rightarrow> if x < 2 ^ 53 then decimalDigits x else formatDigits (shortest x))"

section \<open>Validators (core/security.ts)\<close>

text \<open>
  \<open>isValidHost\<close>: non-empty, and matching
  \<open>/^[a-zA-Z0-9][a-zA-Z0-9.-]*[a-zA-Z0-9]$|^[a-zA-Z0-9]$/\<close>.
\<close>

definition isHostChar :: "char \<Rightarrow> bool" where
  "isHostChar c = (isAlnum c \<or> c = CHR ''.'' \<or> c = CHR ''-'')"

definition isValidHost :: "string \<Rightarrow> bool" where
  "isValidHost host =
     (case host of
        [] \<Rightarrow> False
      | [c] \<Rightarrow> isAlnum c
      | c # cs \<Rightarrow> isAlnum c \<and> list_all isHostChar (butlast cs) \<and> isAlnum (last cs))"

text \<open>\<open>isValidUser\<close>: non-empty, and matching \<open>/^[a-zA-Z_][a-zA-Z0-9_-]*$/\<close>.\<close>

definition isUserChar :: "char \<Rightarrow> bool" where
  "isUserChar c = (isAlnum c \<or> c = CHR ''_'' \<or> c = CHR ''-'')"

definition isValidUser :: "string \<Rightarrow> bool" where
  "isValidUser user =
     (case user of
        [] \<Rightarrow> False
      | c # cs \<Rightarrow> (isLower c \<or> isUpper c \<or> c = CHR ''_'') \<and> list_all isUserChar cs)"

text \<open>\<open>isValidPort\<close> takes a number or a string.\<close>

datatype portArg = PortNum jsnum | PortStr string

definition isValidPort :: "portArg \<Rightarrow> bool" where
  "isValidPort port =
     (let p = (case port of PortStr s \<Rightarrow> parseInt s | PortNum n \<Rightarrow> n)
      in \<not> isNaN p \<and> js_less (Fin 0) p \<and> js_le p (Fin 65535))"

subsection \<open>String replacement\<close>

text \<open>
  \<open>String.prototype.replace\<close> expands \<open>$$\<close>, \<open>$&\<close>, \<open>$`\<close> and \<open>$'\<close> in a replacement
  string (GetSubstitution of ECMAScript): the matched text, the text before the match and
  the text after it. None of the patterns replaced here has a capture group, so \<open>$1\<close>
  and the like stay as they are.
\<close>

fun getSubstitution :: "string \<Rightarrow> string \<Rightarrow> string \<Rightarrow> string \<Rightarrow> string" where
  "getSubstitution matched pre post [] = []"
| "getSubstitution matched pre post [c] = [c]"
| "getSubstitution matched pre post (c # d # r) =
     (if c = CHR ''$'' \<and> d = CHR ''$'' then CHR ''$'' # getSubstitution matched pre post r
      else if c = CHR ''$'' \<and> d = CHR ''&'' then matched @ getSubstitution matched pre post r
      else if c = CHR ''$'' \<and> d = CHR 0x60 then pre @ getSubstitution matched pre post r
      else if c = CHR ''$'' \<and> d = CHR 0x27 then post @ getSubstitution matched pre post r
      else c # getSubstitution matched pre post (d # r))"

text \<open>The first occurrence of a string: the text before it and the text after it.\<close>

fun findFirst :: "string \<Rightarrow> string \<Rightarrow> (string \<times> string) option" where
  "findFirst pat [] = (if pat = [] then Some ([], []) else None)"
| "findFirst pat (c # s) =
     (if prefix pat (c # s) then Some ([], drop (length pat) (c # s))
      else map_option (\<lambda>(b, a). (c # b, a)) (findFirst pat s))"

text \<open>\<open>s.replace(pat, template)\<close> with a string pattern: the first occurrence only.\<close>

definition replaceFirst :: "string \<Rightarrow> string \<Rightarrow> string \<Rightarrow> string" where
  "replaceFirst pat template s =
     (case findFirst pat s of
        None \<Rightarrow> s
      | Some (b, a) \<Rightarrow> b @ getSubstitution pat b a template @ a)"

subsection \<open>The environment: home directory, working directory, file system\<close>

record env =
  homedir :: string
  cwd :: string
  existsSync :: "string \<Rightarrow> bool"

text \<open>
  \<open>expandPath\<close> (core/ssh.ts), also written out in \<open>isValidIdentityFile\<close>:
  \<open>filePath.replace(/^~/, os.homedir())\<close> when the path starts with \<open>~\<close>.
\<close>

definition expandPath :: "env \<Rightarrow> string \<Rightarrow> string" where
  "expandPath e filePath =
     (if prefix ''~'' filePath
      then getSubstitution ''~'' [] (tl filePath) (homedir e) @ tl filePath
      else filePath)"

subsection \<open>Node's \<open>path\<close> module on POSIX\<close>

text \<open>
  \<open>path.resolve\<close> and \<open>path.join\<close> belong to Node, not to this repository; they are
  written here after Node's POSIX implementation (\<open>path.sep\<close> is \<open>/\<close>). \<open>normalizeString\<close>
  walks the segments between slashes: an empty segment and \<open>.\<close> are dropped, \<open>..\<close> removes
  the segment before it, or is kept when there is none and the path is relative.
\<close>

fun splitOn :: "char \<Rightarrow> string \<Rightarrow> string list" where
  "splitOn c [] = [[]]"
| "splitOn c (x # xs) =
     (if x = c then [] # splitOn c xs
      else (case splitOn c xs of [] \<Rightarrow> [[x]] | y # ys \<Rightarrow> (x # y) # ys))"

fun normSegs :: "bool \<Rightarrow> string list \<Rightarrow> string list \<Rightarrow> string list" where
  "normSegs allowAboveRoot acc [] = rev acc"
| "normSegs allowAboveRoot acc (s # ss) =
     (if s = [] \<or> s = ''.'' then normSegs allowAboveRoot acc ss
      else if s = ''..'' then
        (case acc of
           [] \<Rightarrow> normSegs allowAboveRoot (if allowAboveRoot then [''..''] else []) ss
         | a # as \<Rightarrow>
             if a = ''..'' then normSegs allowAboveRoot (if allowAboveRoot then ''..'' # acc else acc) ss
             else normSegs allowAboveRoot as ss)
      else normSegs allowAboveRoot (s # acc) ss)"

definition normalizeString :: "string \<Rightarrow> bool \<Rightarrow> string" where
  "normalizeString p allowAboveRoot = join ''/'' (normSegs allowAboveRoot [] (splitOn CHR ''/'' p))"

definition isAbsolute :: "string \<Rightarrow> bool" where
  "isAbsolute p = prefix ''/'' p"

text \<open>\<open>path.resolve(p)\<close> with one argument; the working directory is used for a relative path.\<close>

definition path_resolve :: "env \<Rightarrow> string \<Rightarrow> string" where
  "path_resolve e p =
     (let r1 = (if p = [] then [] else p @ ''/'');
          abs1 = isAbsolute p;
          r2 = (if abs1 \<or> cwd e = [] then r1 else cwd e @ ''/'' @ r1);
          abs2 = (abs1 \<or> isAbsolute (cwd e));
          n = normalizeString r2 (\<not> abs2)
      in if abs2 then ''/'' @ n else if n \<noteq> [] then n else ''.'')"

definition path_normalize :: "string \<Rightarrow> string" where
  "path_normalize p =
     (if p = [] then ''.''
      else let abs = isAbsolute p;
               trailingSeparator = (last p = CHR ''/'');
               n = normalizeString p (\<not> abs)
           in if n = [] then (if abs then ''/'' else if trailingSeparator then ''./'' else ''.'')
              else (if abs then ''/'' else []) @ n @ (if trailingSeparator then ''/'' else []))"

text \<open>\<open>path.join(a, b)\<close>: the non-empty arguments joined by \<open>/\<close>, then normalized.\<close>

definition path_join :: "string \<Rightarrow> string \<Rightarrow> string" where
  "path_join a b =
     (let joined = join ''/'' (filter (\<lambda>x. x \<noteq> []) [a, b])
      in if joined = [] then ''.'' else path_normalize joined)"

subsection \<open>Identity files\<close>

text \<open>The class \<open>[a-zA-Z0-9._\/-]\<close> of the whitelist \<open>/^[~\/][a-zA-Z0-9._\/-]*$/\<close>.\<close>

definition isPathChar :: "char \<Rightarrow> bool" where
  "isPathChar c = (isAlnum c \<or> c \<in> set ''._/-'')"

definition matchesPathWhitelist :: "string \<Rightarrow> bool" where
  "matchesPathWhitelist filePath =
     (case filePath of
        [] \<Rightarrow> False
      | c # cs \<Rightarrow> (c = CHR ''~'' \<or> c = CHR ''/'') \<and> list_all isPathChar cs)"

definition isValidIdentityFile :: "env \<Rightarrow> string \<Rightarrow> bool" where
  "isValidIdentityFile e filePath =
     (if filePath = [] then False
      else if \<not> matchesPathWhitelist filePath then False
      else
        let expandedPath = expandPath e filePath;
            resolvedPath = path_resolve e expandedPath;
            homeDir = homedir e;
            sshDir = path_join homeDir ''.ssh'';
            isInSshDir = (prefix (sshDir @ ''/'') resolvedPath \<or> resolvedPath = sshDir);
            isInHomeDir = prefix (homeDir @ ''/'') resolvedPath;
            isSafePattern = (prefix ''~/.ssh/'' filePath \<or> prefix ''/home/'' filePath
                             \<or> prefix ''/Users/'' filePath)
        in if sublist ''..'' filePath then False
           else isInSshDir \<or> (isInHomeDir \<and> isSafePattern))"

subsection \<open>Sanitizing and validating\<close>

text \<open>\<open>sanitize\<close> removes the characters of \<open>/[;&|`$(){}[\]<>\\'"!#\n\r]/g\<close>.\<close>

definition dangerous :: "char list" where
  "dangerous = '';&|$(){}[]<>!#'' @ [CHR 0x60, CHR 0x5C, CHR 0x27, CHR 0x22, NL, CR]"

definition sanitize :: "string \<Rightarrow> string" where
  "sanitize input = filter (\<lambda>c. c \<notin> set dangerous) input"

text \<open>
  The argument types \<open>{host, user, port}\<close>, \<open>{host, user, port, identityFile?}\<close> and
  \<open>SSHConnectionInfo\<close> (types/index.ts) are one record and its extensions, so that a
  function on the smaller type takes the larger one, as in TypeScript. A port is an
  integer-valued number, given as the integer.
\<close>

record HostUserPort =
  host :: string
  user :: string
  port :: int

record ConnectionFields = HostUserPort +
  identityFile :: "string option"

record SSHConnectionInfo = ConnectionFields +
  name :: string
  shell :: string
  fleetName :: string
  favorite :: bool
  tags :: "string list"

record ValidationResult =
  valid :: bool
  error :: "string option"

definition validateConnectionInfo :: "env \<Rightarrow> 'a ConnectionFields_scheme \<Rightarrow> ValidationResult" where
  "validateConnectionInfo e info =
     (if \<not> isValidHost (host info) then
        \<lparr>valid = False, error = Some (''Invalid host: '' @ host info)\<rparr>
      else if \<not> isValidUser (user info) then
        \<lparr>valid = False, error = Some (''Invalid user: '' @ user info)\<rparr>
      else if \<not> isValidPort (PortNum (ofInt (port info))) then
        \<lparr>valid = False, error = Some (''Invalid port: '' @ numToString (port info))\<rparr>
      else (case identityFile info of
              None \<Rightarrow> \<lparr>valid = True, error = None\<rparr>
            | Some f \<Rightarrow>
                if f \<noteq> [] \<and> \<not> isValidIdentityFile e f then
                  \<lparr>valid = False, error = Some (''Invalid identity file path: '' @ f)\<rparr>
                else \<lparr>valid = True, error = None\<rparr>))"

subsection \<open>Quick connect\<close>

text \<open>A string that may be \<open>undefined\<close> is truthy when it is there and not empty.\<close>

definition truthy :: "string option \<Rightarrow> bool" where
  "truthy v = (case v of None \<Rightarrow> False | Some s \<Rightarrow> s \<noteq> [])"

text \<open>\<open>QuickConnectParsed\<close> (types/index.ts): \<open>{user?: string; host: string; port?: number}\<close>.\<close>

record QuickConnectParsed =
  qc_user :: "string option"
  qc_host :: string
  qc_port :: "jsnum option"

text \<open>
  The match of \<open>/^(?:([^@]+)@)?([^:]+)(?::(\d+))?$/\<close>, as the captures (user, host,
  portStr). \<open>hostPort\<close> is the part \<open>([^:]+)(?::(\d+))?$\<close>: the host runs to the first
  colon or to the end and is not empty; after a colon only digits, at least one, may
  follow. The user group is tried first: it takes the text before the first \<open>@\<close>, which
  must not be empty; when the rest then fails, the group is skipped and the whole input
  is matched by \<open>hostPort\<close>.
\<close>

definition hostPort :: "string \<Rightarrow> (string \<times> string option) option" where
  "hostPort s =
     (let h = takeWhile (\<lambda>c. c \<noteq> CHR '':'') s;
          r = dropWhile (\<lambda>c. c \<noteq> CHR '':'') s
      in if h = [] then None
         else (case r of
                 [] \<Rightarrow> Some (h, None)
               | _ # ds \<Rightarrow> if ds \<noteq> [] \<and> list_all isDigit ds then Some (h, Some ds) else None))"

definition quickConnectMatch :: "string \<Rightarrow> (string option \<times> string \<times> string option) option" where
  "quickConnectMatch s =
     (let u = takeWhile (\<lambda>c. c \<noteq> CHR ''@'') s;
          r = dropWhile (\<lambda>c. c \<noteq> CHR ''@'') s;
          withUser = (if u = [] \<or> r = [] then None
                      else map_option (\<lambda>(h, p). (Some u, h, p)) (hostPort (tl r)))
      in case withUser of
           Some m \<Rightarrow> Some m
         | None \<Rightarrow> map_option (\<lambda>(h, p). (None, h, p)) (hostPort s))"

definition parseQuickConnect :: "string \<Rightarrow> QuickConnectParsed option" where
  "parseQuickConnect input =
     (let trimmed = sanitize (trim input)
      in if trimmed = [] then None
         else case quickConnectMatch trimmed of
           None \<Rightarrow> None
         | Some (user', host', portStr) \<Rightarrow>
             if \<not> isValidHost host' then None
             else if truthy user' \<and> \<not> isValidUser (the user') then None
             else
               let port' = (if truthy portStr then Some (parseInt (the portStr)) else None)
               in if port' \<noteq> None \<and> \<not> isValidPort (PortNum (the port')) then None
                  else Some \<lparr>qc_user = (if truthy user' then user' else None),
                              qc_host = host', qc_port = port'\<rparr>)"

section \<open>Commands and SSH config entries (core/ssh.ts)\<close>

subsection \<open>Building the command\<close>

datatype jsError = Error string

text \<open>
  \<open>buildSSHCommand\<close> throws or returns the command; the lines it writes with
  \<open>console.warn\<close> are returned beside the command.
\<close>

definition buildSSHCommand :: "env \<Rightarrow> SSHConnectionInfo \<Rightarrow> jsError + (string \<times> string list)" where
  "buildSSHCommand e info =
     (let validation = validateConnectionInfo e info
      in if \<not> valid validation then Inl (Error (case error validation of None \<Rightarrow> [] | Some m \<Rightarrow> m))
         else
           let (parts1, warnings) =
                 (if truthy (identityFile info) then
                    let keyPath = expandPath e (the (identityFile info))
                    in if existsSync e keyPath then ([''ssh'', ''-i'', keyPath], [])
                       else ([''ssh''], [''SSHarbor: Identity file not found: '' @ keyPath])
                  else ([''ssh''], []));
               parts2 = (if port info \<noteq> 22 then parts1 @ [''-p'', numToString (port info)]
                         else parts1);
               parts3 = parts2 @ [user info @ ''@'' @ host info]
           in Inr (join '' '' parts3, warnings))"

definition buildSSHCommandDisplay :: "SSHConnectionInfo \<Rightarrow> string" where
  "buildSSHCommandDisplay info =
     (let parts1 = (if truthy (identityFile info) then [''ssh'', ''-i'', the (identityFile info)]
                    else [''ssh'']);
          parts2 = (if port info \<noteq> 22 then parts1 @ [''-p'', numToString (port info)]
                    else parts1);
          parts3 = parts2 @ [user info @ ''@'' @ host info]
      in join '' '' parts3)"

subsection \<open>Connection identifiers\<close>

definition buildConnectionId :: "'a HostUserPort_scheme \<Rightarrow> string" where
  "buildConnectionId info = user info @ ''@'' @ host info @ '':'' @ numToString (port info)"

text \<open>
  The match of \<open>/^([^@]+)@([^:]+):(\d+)$/\<close>, as the captures (user, host, portStr): the
  user is the text before the first \<open>@\<close>, the host the text from there to the next colon,
  both not empty, and only digits, at least one, follow the colon.
\<close>

definition connectionIdMatch :: "string \<Rightarrow> (string \<times> string \<times> string) option" where
  "connectionIdMatch s =
     (let u = takeWhile (\<lambda>c. c \<noteq> CHR ''@'') s;
          r = dropWhile (\<lambda>c. c \<noteq> CHR ''@'') s
      in if u = [] \<or> r = [] then None
         else let h = takeWhile (\<lambda>c. c \<noteq> CHR '':'') (tl r);
                  r' = dropWhile (\<lambda>c. c \<noteq> CHR '':'') (tl r)
              in if h = [] \<or> r' = [] then None
                 else if tl r' \<noteq> [] \<and> list_all isDigit (tl r') then Some (u, h, tl r')
                 else None)"

text \<open>
  The record \<open>parseConnectionId\<close> returns, \<open>{host, user, port}\<close>: its port is the number
  \<open>parseInt\<close> returns for the digits matched by \<open>(\d+)\<close>.
\<close>

record ConnectionIdParts =
  id_host :: string
  id_user :: string
  id_port :: jsnum

definition parseConnectionId :: "string \<Rightarrow> ConnectionIdParts option" where
  "parseConnectionId ident =
     (case connectionIdMatch ident of
        None \<Rightarrow> None
      | Some (user', host', portStr) \<Rightarrow>
          Some \<lparr>id_host = host', id_user = user', id_port = parseInt portStr\<rparr>)"

subsection \<open>The alias and the entry in the SSH config\<close>

text \<open>\<open>s.replace(/[^a-zA-Z0-9]/g, '_')\<close>.\<close>

definition cleanName :: "string \<Rightarrow> string" where
  "cleanName s = map (\<lambda>c. if isAlnum c then c else CHR ''_'') s"

definition generateSSHConfigAlias :: "SSHConnectionInfo \<Rightarrow> string" where
  "generateSSHConfigAlias info =
     (let fleet = cleanName (fleetName info);
          vessel = cleanName (name info)
      in ''SSHarbor_'' @ fleet @ ''_'' @ vessel)"

definition marker :: string where
  "marker = ''# === SSHarbor Managed Entries ===''"

definition newEntry :: "string \<Rightarrow> SSHConnectionInfo \<Rightarrow> string" where
  "newEntry alias info =
     (let entryLines1 = [''Host '' @ alias, ''  HostName '' @ host info, ''  User '' @ user info];
          entryLines2 = (if port info \<noteq> 22 then entryLines1 @ [''  Port '' @ numToString (port info)]
                         else entryLines1);
          entryLines3 = (if truthy (identityFile info)
                         then entryLines2 @ [''  IdentityFile '' @ the (identityFile info)]
                         else entryLines2);
          entryLines4 = entryLines3 @ [[]]
      in join [NL] entryLines4)"

text \<open>
  \<open>entryRegex.test(text)\<close> for \<open>new RegExp(`^Host ${alias}$`, 'm')\<close>: with the \<open>m\<close> flag
  \<open>^\<close> matches at the start of the text and after a line terminator, \<open>$\<close> at its end and
  before a line terminator. The alias is made of letters, digits and \<open>_\<close> (lemma
  \<open>alias_chars\<close> below), so it stands for itself in the pattern.
\<close>

definition atLineEnd :: "string \<Rightarrow> bool" where
  "atLineEnd s = (case s of [] \<Rightarrow> True | c # _ \<Rightarrow> isLineTerminator c)"

fun lineMatches :: "string \<Rightarrow> bool \<Rightarrow> string \<Rightarrow> bool" where
  "lineMatches pat atStart [] = (atStart \<and> pat = [])"
| "lineMatches pat atStart (c # s) =
     ((atStart \<and> prefix pat (c # s) \<and> atLineEnd (drop (length pat) (c # s)))
      \<or> lineMatches pat (isLineTerminator c) s)"

definition entryRegexTest :: "string \<Rightarrow> string \<Rightarrow> bool" where
  "entryRegexTest alias text = lineMatches (''Host '' @ alias) True text"

text \<open>
  \<open>text.replace(removeRegex, '')\<close> for
  \<open>new RegExp(`\\n?Host ${alias}\\n(?:  [^\\n]+\\n)*`, 'g')\<close>. \<open>bodyLine\<close> is one round of
  \<open>(?:  [^\n]+\n)\<close>: two spaces, at least one character other than a newline, and the
  newline; it returns what follows. \<open>dropBody\<close> takes as many rounds as there are.
  \<open>matchRemove\<close> is a match of the whole pattern at the start of the text: the newline
  before \<open>Host\<close> is taken when it is there. \<open>removeMatches\<close> deletes every match, from left to
  right, each search starting where the match before ended.
\<close>

definition bodyLine :: "string \<Rightarrow> string option" where
  "bodyLine s =
     (case s of
        c1 # c2 # c3 # r \<Rightarrow>
          if c1 = CHR '' '' \<and> c2 = CHR '' '' \<and> c3 \<noteq> NL then
            (case dropWhile (\<lambda>c. c \<noteq> NL) r of [] \<Rightarrow> None | _ # r' \<Rightarrow> Some r')
          else None
      | _ \<Rightarrow> None)"

function dropBody :: "string \<Rightarrow> string" where
  "dropBody s = (case bodyLine s of None \<Rightarrow> s | Some r \<Rightarrow> dropBody r)"
  by pat_completeness auto
termination
proof (relation "measure length")
  show "wf (measure (length :: string \<Rightarrow> nat))" by simp
next
  fix s r :: string
  assume "bodyLine s = Some r"
  then obtain c1 c2 c3 t x where s: "s = c1 # c2 # c3 # t"
    and d: "dropWhile (\<lambda>c. c \<noteq> NL) t = x # r"
    by (auto simp: bodyLine_def split: list.splits if_splits)
  have "length (dropWhile (\<lambda>c. c \<noteq> NL) t) \<le> length t"
    by (rule length_dropWhile_le)
  with d have "length r < length t" by simp
  with s show "(r, s) \<in> measure length" by simp
qed

declare dropBody.simps [simp del]

definition matchRemove :: "string \<Rightarrow> string \<Rightarrow> string option" where
  "matchRemove alias s =
     (let pat = ''Host '' @ alias @ [NL];
          s' = (if prefix [NL] s then tl s else s)
      in if prefix pat s' then Some (dropBody (drop (length pat) s')) else None)"

function removeMatches :: "string \<Rightarrow> string \<Rightarrow> string" where
  "removeMatches alias s =
     (case matchRemove alias s of
        Some r \<Rightarrow> removeMatches alias r
      | None \<Rightarrow> (case s of [] \<Rightarrow> [] | c # t \<Rightarrow> c # removeMatches alias t))"
  by pat_completeness auto
termination
proof (relation "measure (\<lambda>(alias, s). length s)")
  show "wf (measure (\<lambda>(alias :: string, s :: string). length s))" by simp
next
  fix al s r :: string
  assume m: "matchRemove al s = Some r"
  have body: "length (dropBody x) \<le> length x" for x
  proof (induction x rule: dropBody.induct)
    case (1 x)
    show ?case
    proof (cases "bodyLine x")
      case None
      then show ?thesis by (simp add: dropBody.simps [of x])
    next
      case (Some y)
      then obtain c1 c2 c3 t z where x: "x = c1 # c2 # c3 # t"
        and d: "dropWhile (\<lambda>c. c \<noteq> NL) t = z # y"
        by (auto simp: bodyLine_def split: list.splits if_splits)
      have "length (dropWhile (\<lambda>c. c \<noteq> NL) t) \<le> length t"
        by (rule length_dropWhile_le)
      with d x have "length y \<le> length x" by simp
      moreover from "1.IH" [OF Some] have "length (dropBody y) \<le> length y" .
      ultimately show ?thesis using Some by (simp add: dropBody.simps [of x])
    qed
  qed
  define s' where "s' = (if prefix [NL] s then tl s else s)"
  define pat where "pat = ''Host '' @ al @ [NL]"
  from m have p: "prefix pat s'" and r: "r = dropBody (drop (length pat) s')"
    by (auto simp: matchRemove_def Let_def s'_def pat_def split: if_splits)
  from p have "length pat \<le> length s'" by (rule prefix_length_le)
  moreover have "length pat = 6 + length al" by (simp add: pat_def)
  ultimately have "length (drop (length pat) s') < length s'" by simp
  moreover have "length s' \<le> length s" by (simp add: s'_def)
  moreover have "length r \<le> length (drop (length pat) s')" unfolding r by (rule body)
  ultimately show "((al, r), (al, s)) \<in> measure (\<lambda>(alias, s). length s)" by simp
next
  fix al s :: string and c :: char and t :: string
  assume "s = c # t"
  then show "((al, t), (al, s)) \<in> measure (\<lambda>(alias, s). length s)" by simp
qed

declare removeMatches.simps [simp del]

text \<open>
  The text \<open>ensureSSHConfigEntry\<close> writes, from the connection and the text it read.
\<close>

definition updatedConfig :: "SSHConnectionInfo \<Rightarrow> string \<Rightarrow> string" where
  "updatedConfig info existingConfig =
     (let alias = generateSSHConfigAlias info;
          entry = newEntry alias info;
          existing' = (if entryRegexTest alias existingConfig then removeMatches alias existingConfig
                       else existingConfig)
      in if sublist marker existing' then replaceFirst marker (marker @ [NL] @ entry) existing'
         else trimEnd existing' @ [NL, NL] @ marker @ [NL] @ entry)"

text \<open>
  \<open>ensureSSHConfigEntry\<close> reads \<open>~/.ssh/config\<close> (a file that cannot be read counts as
  empty), writes the updated text and returns the alias. The file is \<open>None\<close> when it does
  not exist; the result is the alias and the content of the file afterwards.
\<close>

definition ensureSSHConfigEntry :: "SSHConnectionInfo \<Rightarrow> string option \<Rightarrow> string \<times> string" where
  "ensureSSHConfigEntry info sshConfig =
     (let existingConfig = (case sshConfig of None \<Rightarrow> [] | Some t \<Rightarrow> t)
      in (generateSSHConfigAlias info, updatedConfig info existingConfig))"

section \<open>Resolving a vessel's connection (types/index.ts)\<close>

text \<open>
  \<open>HarborDefaults\<close> and \<open>FleetDefaults\<close> have the same four optional fields; \<open>Vessel\<close>,
  \<open>Fleet\<close> and \<open>SSHarborSettings\<close> follow the interfaces.
\<close>

record Defaults =
  d_shell :: "string option"
  d_user :: "string option"
  d_port :: "int option"
  d_identityFile :: "string option"

record Vessel =
  v_name :: string
  v_host :: string
  v_user :: "string option"
  v_port :: "int option"
  v_identityFile :: "string option"
  v_shell :: "string option"
  v_tags :: "string list option"
  v_favorite :: "bool option"
  v_notes :: "string option"

record Fleet =
  f_name :: string
  f_icon :: "string option"
  f_color :: "string option"
  f_collapsed :: "bool option"
  f_defaults :: "Defaults option"
  f_vessels :: "Vessel list"

record SSHarborSettings =
  defaultShell :: string
  defaultUser :: string
  defaultPort :: int
  showRecentConnections :: bool
  maxRecentConnections :: int

text \<open>
  \<open>a || b\<close>: \<open>a\<close> when it is truthy, \<open>b\<close> otherwise. A value that may be \<open>undefined\<close> is
  an option; the empty string and the number 0 are falsy.
\<close>

definition strOr :: "string option \<Rightarrow> string option \<Rightarrow> string option" where
  "strOr a b = (if truthy a then a else b)"

definition truthyNum :: "int option \<Rightarrow> bool" where
  "truthyNum v = (case v of None \<Rightarrow> False | Some n \<Rightarrow> n \<noteq> 0)"

definition numOr :: "int option \<Rightarrow> int option \<Rightarrow> int option" where
  "numOr a b = (if truthyNum a then a else b)"

text \<open>\<open>fleet.defaults?.field\<close>.\<close>

definition fleetDefault :: "Fleet \<Rightarrow> (Defaults \<Rightarrow> 'a option) \<Rightarrow> 'a option" where
  "fleetDefault fleet field = (case f_defaults fleet of None \<Rightarrow> None | Some d \<Rightarrow> field d)"

text \<open>
  The constructor of \<open>VesselItem\<close> computes \<open>connectionInfo\<close>. Each chain of \<open>||\<close> for
  \<open>user\<close>, \<open>port\<close> and \<open>shell\<close> ends in a setting, which is a string or a number, never
  \<open>undefined\<close>: the last step takes the value out of the option.
\<close>

definition connectionInfo :: "Vessel \<Rightarrow> Fleet \<Rightarrow> Defaults \<Rightarrow> SSHarborSettings \<Rightarrow> SSHConnectionInfo" where
  "connectionInfo vessel fleet harborDefaults settings =
     (let user' = the (strOr (strOr (strOr (v_user vessel) (fleetDefault fleet d_user))
                          (d_user harborDefaults)) (Some (defaultUser settings)));
          port' = the (numOr (numOr (numOr (v_port vessel) (fleetDefault fleet d_port))
                          (d_port harborDefaults)) (Some (defaultPort settings)));
          identityFile' = strOr (strOr (v_identityFile vessel) (fleetDefault fleet d_identityFile))
                          (d_identityFile harborDefaults);
          shell' = the (strOr (strOr (strOr (v_shell vessel) (fleetDefault fleet d_shell))
                          (d_shell harborDefaults)) (Some (defaultShell settings)))
      in \<lparr>host = v_host vessel, user = user', port = port', identityFile = identityFile',
          name = (if v_name vessel \<noteq> [] then v_name vessel else v_host vessel),
          shell = shell',
          fleetName = f_name fleet,
          favorite = (case v_favorite vessel of None \<Rightarrow> False | Some b \<Rightarrow> b),
          tags = (case v_tags vessel of None \<Rightarrow> [] | Some t \<Rightarrow> t)\<rparr>)"

section \<open>The scan of the specification\<close>

text \<open>
  The scan of the specification: the first value of a chain that is present and not
  empty (not zero, for a number).
\<close>

fun firstNonEmpty :: "string option list \<Rightarrow> string option" where
  "firstNonEmpty [] = None"
| "firstNonEmpty (x # xs) = (if truthy x then x else firstNonEmpty xs)"

fun firstNonZero :: "int option list \<Rightarrow> int option" where
  "firstNonZero [] = None"
| "firstNonZero (x # xs) = (if truthyNum x then x else firstNonZero xs)"

section \<open>Inputs of the examples\<close>

text \<open>
  The environment of the repository's tests: the home directory is \<open>/home/testuser\<close> and
  only \<open>/home/testuser/.ssh/id_rsa\<close> exists.
\<close>

abbreviation testEnv :: env where
  "testEnv \<equiv> \<lparr>homedir = ''/home/testuser'', cwd = ''/home/testuser'',
               existsSync = (\<lambda>p. p = ''/home/testuser/.ssh/id_rsa'')\<rparr>"

abbreviation testInfo :: SSHConnectionInfo where
  "testInfo \<equiv> \<lparr>host = ''example.com'', user = ''admin'', port = 2222,
                identityFile = Some ''~/.ssh/id_rsa'', name = ''Server'', shell = ''/bin/bash'',
                fleetName = ''Production'', favorite = False, tags = []\<rparr>"

text \<open>A vessel, a fleet and defaults with nothing set, and two records of settings.\<close>

abbreviation bareVessel :: Vessel where
  "bareVessel \<equiv> \<lparr>v_name = ''web'', v_host = ''example.com'', v_user = None, v_port = None,
                  v_identityFile = None, v_shell = None, v_tags = None, v_favorite = None,
                  v_notes = None\<rparr>"

abbreviation bareFleet :: Fleet where
  "bareFleet \<equiv> \<lparr>f_name = ''Production'', f_icon = None, f_color = None, f_collapsed = None,
                 f_defaults = None, f_vessels = [bareVessel]\<rparr>"

abbreviation noDefaults :: Defaults where
  "noDefaults \<equiv> \<lparr>d_shell = None, d_user = None, d_port = None, d_identityFile = None\<rparr>"

abbreviation emptySettings :: SSHarborSettings where
  "emptySettings \<equiv> \<lparr>defaultShell = [], defaultUser = [], defaultPort = 0,
                     showRecentConnections = True, maxRecentConnections = 5\<rparr>"

abbreviation rootSettings :: SSHarborSettings where
  "rootSettings \<equiv> \<lparr>defaultShell = ''/bin/zsh'', defaultUser = ''root'', defaultPort = 22,
                     showRecentConnections = True, maxRecentConnections = 5\<rparr>"

text \<open>A vessel whose alias is \<open>SSHarbor_Prod_Web\<close>.\<close>

abbreviation webInfo :: SSHConnectionInfo where
  "webInfo \<equiv> \<lparr>host = ''10.0.0.5'', user = ''deploy'', port = 22, identityFile = None,
               name = ''Web'', shell = ''/bin/bash'', fleetName = ''Prod'', favorite = False,
               tags = []\<rparr>"

text \<open>
  An SSH config in which the entry of the vessel has been commented out by hand.
\<close>

abbreviation commentedConfig :: string where
  "commentedConfig \<equiv>
     ''# === SSHarbor Managed Entries ===\<newline>#Host SSHarbor_Prod_Web\<newline>#  HostName 10.0.0.4\<newline>''"

section \<open>Ports\<close>

lemma isValidPort_num:
  "isValidPort (PortNum x) \<longleftrightarrow> (\<exists>r. x = Fin r \<and> 0 < r \<and> r \<le> 65535)"
  by (cases x) (auto simp: isValidPort_def isNaN_def)

lemma isValidPort_int: "isValidPort (PortNum (ofInt i)) \<longleftrightarrow> 1 \<le> i \<and> i \<le> 65535"
proof -
  have "(0::rat) < of_int i \<longleftrightarrow> 1 \<le> i" by simp linarith
  moreover have "(of_int i :: rat) \<le> 65535 \<longleftrightarrow> i \<le> 65535"
    using of_int_le_iff [of i 65535, where 'a = rat] by simp
  ultimately show ?thesis by (simp add: isValidPort_num ofInt_def)
qed

subsection \<open>The number value of an integer\<close>

lemma ulpExp_small: "n < 2 ^ 53 \<Longrightarrow> ulpExp n = 0"
  by (simp add: ulpExp.simps [of n])

lemma toDouble_small: "n < 2 ^ 53 \<Longrightarrow> toDouble n = Some n"
proof -
  assume a: "n < 2 ^ 53"
  have "(2::int) ^ 53 < 2 ^ 1024" by simp
  with a have "n < 2 ^ 1024" by linarith
  with a show ?thesis by (simp add: toDouble_def ulpExp_small Let_def)
qed

lemma ulpExp_le: "0 < n \<Longrightarrow> 2 ^ ulpExp n \<le> n"
proof (induction n rule: ulpExp.induct)
  case (1 n)
  show ?case
  proof (cases "n < 2 ^ 53")
    case True
    with "1.prems" show ?thesis by (simp add: ulpExp_small)
  next
    case False
    then have "0 < n div 2" by simp
    with "1.IH" False have "2 ^ ulpExp (n div 2) \<le> n div 2" by simp
    then have "2 * 2 ^ ulpExp (n div 2) \<le> 2 * (n div 2)" by simp
    also have "\<dots> \<le> n" by simp
    finally show ?thesis using False by (simp add: ulpExp.simps [of n])
  qed
qed

text \<open>Rounding an integer from \<open>2^53\<close> on does not take it below \<open>2^52\<close>.\<close>

lemma toDouble_big:
  assumes "2 ^ 53 \<le> n" and "toDouble n = Some x"
  shows "2 ^ 52 < x"
proof -
  define P :: int where "P = 2 ^ ulpExp n"
  define q where "q = n div P"
  define r where "r = n mod P"
  from assms(1) have "0 < n" by simp
  from ulpExp_le [OF this] have P: "0 < P" "P \<le> n" by (simp_all add: P_def)
  have n: "n = q * P + r" by (simp add: q_def r_def)
  have r: "r < P" using P(1) by (simp add: r_def)
  have q: "1 \<le> q" using P pos_imp_zdiv_pos_iff [of P n] by (simp add: q_def)
  from mult_right_mono [OF q, of P] P(1) have "P \<le> q * P" by simp
  with n r have "n < 2 * (q * P)" by linarith
  with assms(1) have b: "2 ^ 52 < q * P" by simp
  define q' where "q' = (if P < 2 * r \<or> (2 * r = P \<and> odd q) then q + 1 else q)"
  have "toDouble n = (if q' * P < 2 ^ 1024 then Some (q' * P) else None)"
    unfolding q'_def r_def q_def P_def toDouble_def Let_def by (rule refl)
  with assms(2) have x: "x = q' * P" by (simp split: if_splits)
  have "q \<le> q'" by (simp add: q'_def)
  from mult_right_mono [OF this, of P] P(1) have "q * P \<le> x" by (simp add: x)
  with b show ?thesis by linarith
qed

text \<open>
  \<open>10^21\<close> is a double, and rounding is monotone there: an integer from \<open>10^21\<close> on is
  not rounded below it, and a smaller one not above it.
\<close>

lemma ulpExp_quotient: "2 ^ 53 \<le> n \<Longrightarrow> 2 ^ 52 \<le> n div 2 ^ ulpExp n"
proof (induction n rule: ulpExp.induct)
  case (1 n)
  from "1.prems" have nb: "\<not> n < 2 ^ 53" by simp
  show ?case
  proof (cases "n div 2 < 2 ^ 53")
    case True
    then have "ulpExp (n div 2) = 0" by (rule ulpExp_small)
    with nb have "ulpExp n = 1" by (simp add: ulpExp.simps [of n])
    moreover from "1.prems" have "2 ^ 52 \<le> n div 2" by simp
    ultimately show ?thesis by simp
  next
    case False
    then have "2 ^ 53 \<le> n div 2" by simp
    with "1.IH" nb have "2 ^ 52 \<le> n div 2 div 2 ^ ulpExp (n div 2)" by simp
    moreover have "n div 2 div 2 ^ ulpExp (n div 2) = n div (2 * 2 ^ ulpExp (n div 2))"
      by (simp add: zdiv_zmult2_eq)
    moreover from nb have "ulpExp n = Suc (ulpExp (n div 2))" by (simp add: ulpExp.simps [of n])
    ultimately show ?thesis by simp
  qed
qed

lemma ulpExp_bound: "n < 2 ^ (53 + k) \<Longrightarrow> ulpExp n \<le> k"
proof (induction k arbitrary: n)
  case 0
  then show ?case by (simp add: ulpExp_small)
next
  case (Suc k)
  show ?case
  proof (cases "n < 2 ^ 53")
    case True
    then show ?thesis by (simp add: ulpExp_small)
  next
    case False
    define Q :: int where "Q = 2 ^ (53 + k)"
    have "(2::int) ^ (53 + Suc k) = 2 * Q" by (simp only: Q_def add_Suc_right power_Suc)
    with Suc.prems have "n < 2 * Q" by (simp only:)
    then have "n div 2 < Q" by presburger
    then have "n div 2 < 2 ^ (53 + k)" by (simp add: Q_def)
    from Suc.IH [OF this] False show ?thesis by (simp add: ulpExp.simps [of n])
  qed
qed

lemma toDouble_lower:
  assumes "toDouble n = Some x"
  shows "n div 2 ^ ulpExp n * 2 ^ ulpExp n \<le> x"
proof -
  define P :: int where "P = 2 ^ ulpExp n"
  define q where "q = n div P"
  define r where "r = n mod P"
  define q' where "q' = (if P < 2 * r \<or> (2 * r = P \<and> odd q) then q + 1 else q)"
  have P: "0 < P" by (simp add: P_def)
  have "toDouble n = (if q' * P < 2 ^ 1024 then Some (q' * P) else None)"
    unfolding q'_def r_def q_def P_def toDouble_def Let_def by (rule refl)
  with assms have x: "x = q' * P" by (simp split: if_splits)
  have "q \<le> q'" by (simp add: q'_def)
  from mult_right_mono [OF this, of P] P have "q * P \<le> x" by (simp add: x)
  then show ?thesis by (simp add: q_def P_def)
qed

lemma toDouble_upper:
  assumes "toDouble n = Some x"
  shows "x \<le> (n div 2 ^ ulpExp n + 1) * 2 ^ ulpExp n"
proof -
  define P :: int where "P = 2 ^ ulpExp n"
  define q where "q = n div P"
  define r where "r = n mod P"
  define q' where "q' = (if P < 2 * r \<or> (2 * r = P \<and> odd q) then q + 1 else q)"
  have P: "0 < P" by (simp add: P_def)
  have "toDouble n = (if q' * P < 2 ^ 1024 then Some (q' * P) else None)"
    unfolding q'_def r_def q_def P_def toDouble_def Let_def by (rule refl)
  with assms have x: "x = q' * P" by (simp split: if_splits)
  have "q' \<le> q + 1" by (simp add: q'_def)
  from mult_right_mono [OF this, of P] P have "x \<le> (q + 1) * P" by (simp add: x)
  then show ?thesis by (simp add: q_def P_def)
qed

lemma toDouble_above:
  assumes c: "10 ^ 21 \<le> c" and x: "toDouble c = Some x"
  shows "10 ^ 21 \<le> x"
proof -
  define e where "e = ulpExp c"
  define P :: int where "P = 2 ^ e"
  have P: "0 < P" by (simp add: P_def)
  from toDouble_lower [OF x] have lo: "c div P * P \<le> x" by (simp add: P_def e_def)
  show ?thesis
  proof (cases "e \<le> 21")
    case True
    then have "(2::int) ^ e dvd 2 ^ 21" by (rule le_imp_power_dvd)
    moreover have "(2::int) ^ 21 dvd 10 ^ 21" by simp
    ultimately have d: "P dvd 10 ^ 21" unfolding P_def by (rule dvd_trans)
    from zdiv_mono1 [OF c P] have "10 ^ 21 div P * P \<le> c div P * P"
      using P by simp
    with d lo show ?thesis by simp
  next
    case False
    then have "22 \<le> e" by simp
    then have "(2::int) ^ 22 \<le> 2 ^ e" by (intro power_increasing) simp_all
    then have p22: "2 ^ 22 \<le> P" by (simp add: P_def)
    from c have "2 ^ 53 \<le> c" by simp
    from ulpExp_quotient [OF this] have q: "2 ^ 52 \<le> c div P" by (simp add: P_def e_def)
    have "(2::int) ^ 52 * 2 ^ 22 \<le> c div P * P"
      by (rule mult_mono [OF q p22]) (use q in simp_all)
    with lo show ?thesis by simp
  qed
qed

lemma toDouble_below:
  assumes c: "c < 10 ^ 21" and x: "toDouble c = Some x"
  shows "x \<le> 10 ^ 21"
proof -
  define e where "e = ulpExp c"
  define P :: int where "P = 2 ^ e"
  have P: "0 < P" by (simp add: P_def)
  from toDouble_upper [OF x] have up: "x \<le> (c div P + 1) * P" by (simp add: P_def e_def)
  have "(10::int) ^ 21 < 2 ^ (53 + 17)" by simp
  with c have "c < 2 ^ (53 + 17)" by linarith
  then have "e \<le> 17" unfolding e_def by (rule ulpExp_bound)
  then have "e \<le> 21" by simp
  then have "(2::int) ^ e dvd 2 ^ 21" by (rule le_imp_power_dvd)
  moreover have "(2::int) ^ 21 dvd 10 ^ 21" by simp
  ultimately have d: "P dvd 10 ^ 21" unfolding P_def by (rule dvd_trans)
  then obtain m where m: "10 ^ 21 = m * P" by (auto simp: dvd_def mult.commute)
  have "c div P * P \<le> c" using P by (simp add: minus_mod_eq_div_mult [symmetric])
  with c m have "c div P * P < m * P" by simp
  with P have "c div P < m" by simp
  then have "c div P + 1 \<le> m" by simp
  from mult_right_mono [OF this, of P] P have "(c div P + 1) * P \<le> m * P" by simp
  with up m show ?thesis by simp
qed

lemma toNumber_small: "\<bar>i\<bar> < 2 ^ 53 \<Longrightarrow> toNumber i = ofInt i"
proof -
  assume "\<bar>i\<bar> < 2 ^ 53"
  then have "toDouble \<bar>i\<bar> = Some \<bar>i\<bar>" by (rule toDouble_small)
  then show ?thesis by (simp add: toNumber_def)
qed

lemma isValidPort_toNumber: "isValidPort (PortNum (toNumber i)) \<longleftrightarrow> 1 \<le> i \<and> i \<le> 65535"
proof (cases "\<bar>i\<bar> < 2 ^ 53")
  case True
  then show ?thesis by (simp add: toNumber_small isValidPort_int)
next
  case False
  then have big: "2 ^ 53 \<le> \<bar>i\<bar>" by simp
  have "\<not> isValidPort (PortNum (toNumber i))"
  proof (cases "toDouble \<bar>i\<bar>")
    case None
    then show ?thesis by (simp add: toNumber_def isValidPort_num)
  next
    case (Some x)
    from toDouble_big [OF big Some] have "2 ^ 52 < x" .
    then have "\<not> (1 \<le> (if i < 0 then - x else x) \<and> (if i < 0 then - x else x) \<le> 65535)"
      by simp
    with Some show ?thesis by (simp add: toNumber_def isValidPort_int)
  qed
  moreover from big have "\<not> (1 \<le> i \<and> i \<le> 65535)" by (cases "0 \<le> i") simp_all
  ultimately show ?thesis by simp
qed

lemma toNumber_valid: "isValidPort (PortNum (toNumber i)) \<Longrightarrow> toNumber i = ofInt i"
proof -
  assume "isValidPort (PortNum (toNumber i))"
  then have "1 \<le> i \<and> i \<le> 65535" by (simp only: isValidPort_toNumber)
  then have "\<bar>i\<bar> < 2 ^ 53" by simp
  then show ?thesis by (rule toNumber_small)
qed

subsection \<open>Reading and printing digits\<close>

lemma digit_not_space: "isDigit c \<Longrightarrow> \<not> isWhiteSpace c"
  by (auto simp: isDigit_def isWhiteSpace_def)

lemma digit_not_sign: "isDigit c \<Longrightarrow> c \<noteq> CHR ''+'' \<and> c \<noteq> CHR ''-''"
  by (auto simp: isDigit_def)

lemma dropWhile_all: "list_all P ws \<Longrightarrow> t = [] \<or> \<not> P (hd t) \<Longrightarrow> dropWhile P (ws @ t) = t"
  by (induction ws) (cases t; auto)+

lemma takeWhile_all: "list_all P ds \<Longrightarrow> t = [] \<or> \<not> P (hd t) \<Longrightarrow> takeWhile P (ds @ t) = ds"
  by (induction ds) (cases t; auto)+

lemma foldl_digits_nonneg:
  "0 \<le> a \<Longrightarrow> 0 \<le> foldl (\<lambda>a c. 10 * a + int (digitVal c)) a ds"
  by (induction ds arbitrary: a) simp_all

lemma digitsValue_nonneg: "0 \<le> digitsValue ds"
  by (simp add: digitsValue_def foldl_digits_nonneg)

lemma mathInt_unsigned:
  assumes "list_all isWhiteSpace ws" "ds \<noteq> []" "list_all isDigit ds" "rest = [] \<or> \<not> isDigit (hd rest)"
  shows "mathInt (ws @ ds @ rest) = Some (digitsValue ds)"
proof -
  obtain d ds' where ds: "ds = d # ds'" using assms(2) by (cases ds) auto
  with assms(3) have d: "isDigit d" by simp
  have "trimStart (ws @ ds @ rest) = ds @ rest"
    unfolding trimStart_def using assms(1) ds d by (intro dropWhile_all) (auto dest: digit_not_space)
  moreover have "takeWhile isDigit (ds @ rest) = ds"
    using assms(3,4) by (rule takeWhile_all)
  ultimately show ?thesis
    using ds digit_not_sign [OF d] by (simp add: mathInt_def Let_def)
qed

lemma mathInt_signed:
  assumes "list_all isWhiteSpace ws" "ds \<noteq> []" "list_all isDigit ds" "rest = [] \<or> \<not> isDigit (hd rest)"
    and "c = CHR ''+'' \<or> c = CHR ''-''"
  shows "mathInt (ws @ c # ds @ rest) = Some ((if c = CHR ''-'' then - 1 else 1) * digitsValue ds)"
proof -
  have "\<not> isWhiteSpace c" using assms(5) by (auto simp: isWhiteSpace_def)
  then have "trimStart (ws @ c # ds @ rest) = c # ds @ rest"
    unfolding trimStart_def using assms(1) by (intro dropWhile_all) auto
  moreover have "takeWhile isDigit (ds @ rest) = ds"
    using assms(3,4) by (rule takeWhile_all)
  ultimately show ?thesis
    using assms(2,5) by (auto simp add: mathInt_def Let_def)
qed

lemma mathInt_Some:
  assumes "mathInt s = Some i"
  shows "\<exists>ws sg ds rest. s = ws @ sg @ ds @ rest \<and> list_all isWhiteSpace ws
           \<and> (sg = [] \<or> sg = ''+'' \<or> sg = ''-'') \<and> ds \<noteq> [] \<and> list_all isDigit ds
           \<and> (rest = [] \<or> \<not> isDigit (hd rest))
           \<and> i = (if sg = ''-'' then - 1 else 1) * digitsValue ds"
proof -
  define ws where "ws = takeWhile isWhiteSpace s"
  define S where "S = dropWhile isWhiteSpace s"
  define neg where "neg = (case S of [] \<Rightarrow> False | c # _ \<Rightarrow> c = CHR ''-'')"
  define sg where "sg = (case S of [] \<Rightarrow> [] | c # r \<Rightarrow> if c = CHR ''+'' \<or> c = CHR ''-'' then [c] else [])"
  define S' where "S' = (case S of [] \<Rightarrow> S | c # r \<Rightarrow> if c = CHR ''+'' \<or> c = CHR ''-'' then r else S)"
  define ds where "ds = takeWhile isDigit S'"
  define rest where "rest = dropWhile isDigit S'"
  have s: "s = ws @ S" by (simp add: ws_def S_def)
  have S: "S = sg @ S'" by (cases S) (simp_all add: sg_def S'_def)
  have S': "S' = ds @ rest" by (simp add: ds_def rest_def)
  have ws: "list_all isWhiteSpace ws"
    unfolding ws_def list_all_iff by (auto dest: set_takeWhileD)
  have dsd: "list_all isDigit ds"
    unfolding ds_def list_all_iff by (auto dest: set_takeWhileD)
  have rest: "rest = [] \<or> \<not> isDigit (hd rest)"
    unfolding rest_def using hd_dropWhile [of isDigit S'] by blast
  have sgc: "sg = [] \<or> sg = ''+'' \<or> sg = ''-''"
    by (cases S) (auto simp: sg_def)
  have neg: "neg \<longleftrightarrow> sg = ''-''"
    by (cases S) (auto simp: sg_def neg_def)
  have pi: "mathInt s = (if ds = [] then None
                          else Some ((if neg then - 1 else 1) * digitsValue ds))"
    unfolding ds_def neg_def S'_def S_def mathInt_def Let_def trimStart_def by (rule refl)
  from assms pi have nz: "ds \<noteq> []" by (cases "ds = []") simp_all
  with assms pi neg have i: "i = (if sg = ''-'' then - 1 else 1) * digitsValue ds"
    by simp
  have "s = ws @ sg @ ds @ rest" using s S S' by simp
  with ws sgc nz dsd rest i show ?thesis by blast
qed

lemma isValidPort_PortStr: "isValidPort (PortStr s) = isValidPort (PortNum (parseInt s))"
  by (simp add: isValidPort_def)

lemma isValidPort_str:
  "isValidPort (PortStr s) \<longleftrightarrow>
     (\<exists>ws sg ds rest. s = ws @ sg @ ds @ rest \<and> list_all isWhiteSpace ws
        \<and> (sg = [] \<or> sg = ''+'') \<and> ds \<noteq> [] \<and> list_all isDigit ds
        \<and> (rest = [] \<or> \<not> isDigit (hd rest))
        \<and> 0 < digitsValue ds \<and> digitsValue ds \<le> 65535)"
  (is "?L \<longleftrightarrow> ?R")
proof
  assume L: ?L
  have "mathInt s \<noteq> None"
  proof
    assume "mathInt s = None"
    with L show False by (simp add: isValidPort_def parseInt_def isNaN_def)
  qed
  then obtain i where p: "mathInt s = Some i" by blast
  with L have v: "isValidPort (PortNum (toNumber i))"
    by (simp add: isValidPort_PortStr parseInt_def)
  from v have i: "1 \<le> i" "i \<le> 65535" by (simp_all add: isValidPort_toNumber)
  from mathInt_Some [OF p] obtain ws sg ds rest where
    d: "s = ws @ sg @ ds @ rest" "list_all isWhiteSpace ws" "sg = [] \<or> sg = ''+'' \<or> sg = ''-''"
       "ds \<noteq> []" "list_all isDigit ds" "rest = [] \<or> \<not> isDigit (hd rest)"
       "i = (if sg = ''-'' then - 1 else 1) * digitsValue ds"
    by blast
  have ns: "sg \<noteq> ''-''"
  proof
    assume "sg = ''-''"
    with d(7) digitsValue_nonneg [of ds] have "i \<le> 0" by simp
    with i(1) show False by simp
  qed
  with d(3) have sg: "sg = [] \<or> sg = ''+''" by blast
  from ns d(7) have "i = digitsValue ds" by simp
  with i have "0 < digitsValue ds" "digitsValue ds \<le> 65535" by simp_all
  with d(1,2,4,5,6) sg show ?R by blast
next
  assume ?R
  then obtain ws sg ds rest where
    d: "s = ws @ sg @ ds @ rest" "list_all isWhiteSpace ws" "sg = [] \<or> sg = ''+''"
       "ds \<noteq> []" "list_all isDigit ds" "rest = [] \<or> \<not> isDigit (hd rest)"
       "0 < digitsValue ds" "digitsValue ds \<le> 65535"
    by blast
  have "mathInt s = Some (digitsValue ds)"
  proof (cases "sg = []")
    case True
    with mathInt_unsigned [OF d(2,4,5,6)] d(1) show ?thesis by simp
  next
    case False
    with d(3) have "sg = ''+''" by simp
    with mathInt_signed [OF d(2,4,5,6), of "CHR ''+''"] d(1) show ?thesis by simp
  qed
  moreover from d(7,8) have "isValidPort (PortNum (toNumber (digitsValue ds)))"
    by (simp add: isValidPort_toNumber)
  ultimately show ?L
    by (simp add: isValidPort_PortStr parseInt_def)
qed

lemma digitChar_cases: "d < 10 \<Longrightarrow> d \<in> {0, 1, 2, 3, 4, 5, 6, 7, 8, 9::nat}"
  by auto

lemma digitChar_digit: "d < 10 \<Longrightarrow> isDigit (digitChar d)"
  by (drule digitChar_cases) (auto simp: isDigit_def digitChar_def)

lemma digitVal_digitChar: "d < 10 \<Longrightarrow> digitVal (digitChar d) = d"
  by (drule digitChar_cases) (auto simp: digitVal_def digitChar_def)

lemma digitsValue_snoc: "digitsValue (ds @ [c]) = 10 * digitsValue ds + int (digitVal c)"
  by (simp add: digitsValue_def)

lemma decimalDigits_digits: "decimalDigits n \<noteq> [] \<and> list_all isDigit (decimalDigits n)"
proof (induction n rule: decimalDigits.induct)
  case (1 n)
  show ?case
  proof (cases "n < 10")
    case True
    then have "nat n < 10" by simp
    with True show ?thesis by (simp add: decimalDigits.simps [of n] digitChar_digit)
  next
    case False
    have "nat (n mod 10) < 10" by simp
    with False "1.IH" show ?thesis by (simp add: decimalDigits.simps [of n] digitChar_digit)
  qed
qed

lemma digitsValue_decimalDigits: "0 \<le> n \<Longrightarrow> digitsValue (decimalDigits n) = n"
proof (induction n rule: decimalDigits.induct)
  case (1 n)
  show ?case
  proof (cases "n < 10")
    case True
    then have "nat n < 10" by simp
    with True "1.prems" show ?thesis
      using digitsValue_snoc [of "[]" "digitChar (nat n)"]
      by (simp add: decimalDigits.simps [of n] digitVal_digitChar digitsValue_def)
  next
    case False
    have m: "nat (n mod 10) < 10" by simp
    from False "1.prems" have "0 \<le> n div 10" by simp
    with False "1.IH" have "digitsValue (decimalDigits (n div 10)) = n div 10" by simp
    with False m show ?thesis
      by (simp add: decimalDigits.simps [of n] digitsValue_snoc digitVal_digitChar)
  qed
qed

lemma mathInt_digits:
  "ds \<noteq> [] \<Longrightarrow> list_all isDigit ds \<Longrightarrow> mathInt ds = Some (digitsValue ds)"
  using mathInt_unsigned [of "[]" ds "[]"] by simp

lemma numToString_small:
  "\<bar>i\<bar> < 2 ^ 53 \<Longrightarrow>
     numToString i = (if i < 0 then CHR ''-'' # decimalDigits (- i) else decimalDigits i)"
proof -
  assume a: "\<bar>i\<bar> < 2 ^ 53"
  then have "toDouble \<bar>i\<bar> = Some \<bar>i\<bar>" by (rule toDouble_small)
  with a show ?thesis by (simp add: numToString_def)
qed

lemma mathInt_numToString: "\<bar>i\<bar> < 2 ^ 53 \<Longrightarrow> mathInt (numToString i) = Some i"
proof (cases "i < 0")
  case True
  assume a: "\<bar>i\<bar> < 2 ^ 53"
  have "mathInt ([] @ CHR ''-'' # decimalDigits (- i) @ []) = Some (- 1 * digitsValue (decimalDigits (- i)))"
    using decimalDigits_digits [of "- i"]
    by (subst mathInt_signed) auto
  with True a show ?thesis by (simp add: numToString_small digitsValue_decimalDigits)
next
  case False
  assume a: "\<bar>i\<bar> < 2 ^ 53"
  with False show ?thesis
    using decimalDigits_digits [of i]
    by (simp add: numToString_small mathInt_digits digitsValue_decimalDigits)
qed

subsection \<open>What \<open>isValidPort\<close> accepts\<close>

text \<open>
  \<open>isValidPort\<close> accepts a number exactly when it is not \<open>NaN\<close>, greater than 0 and at
  most 65535, so an integer exactly when it lies in [1, 65535], and the decimal string of
  an integer below \<open>2^53\<close> in magnitude exactly when the integer lies there. It accepts a
  string exactly when the string is white space, an optional \<open>+\<close>, then a longest run
  of digits whose value lies in [1, 65535], then anything: \<open>NaN\<close>, 0, negative numbers,
  numbers above 65535 and strings with no numeric prefix are rejected, and neither a
  fractional part of a number nor the characters after the numeric prefix of a string are
  looked at.
\<close>

lemma isValidPort_accepts:
  "(isValidPort (PortNum x) \<longleftrightarrow> (\<exists>r. x = Fin r \<and> 0 < r \<and> r \<le> 65535))
   \<and> (isValidPort (PortNum (ofInt i)) \<longleftrightarrow> 1 \<le> i \<and> i \<le> 65535)
   \<and> (\<bar>i\<bar> < 2 ^ 53 \<longrightarrow> (isValidPort (PortStr (numToString i)) \<longleftrightarrow> 1 \<le> i \<and> i \<le> 65535))
   \<and> (isValidPort (PortStr s) \<longleftrightarrow>
        (\<exists>ws sg ds rest. s = ws @ sg @ ds @ rest \<and> list_all isWhiteSpace ws
           \<and> (sg = [] \<or> sg = ''+'') \<and> ds \<noteq> [] \<and> list_all isDigit ds
           \<and> (rest = [] \<or> \<not> isDigit (hd rest))
           \<and> 0 < digitsValue ds \<and> digitsValue ds \<le> 65535))"
proof -
  have "\<bar>i\<bar> < 2 ^ 53 \<longrightarrow> (isValidPort (PortStr (numToString i)) \<longleftrightarrow> 1 \<le> i \<and> i \<le> 65535)"
    by (simp add: isValidPort_PortStr parseInt_def mathInt_numToString isValidPort_toNumber)
  then show ?thesis
    using isValidPort_num [of x] isValidPort_int [of i] isValidPort_str [of s] by blast
qed

lemma isValidPort_examples:
  "isValidPort (PortNum (Fin 65535)) \<and> \<not> isValidPort (PortNum NaN) \<and> \<not> isValidPort (PortNum (ofInt 0))
   \<and> \<not> isValidPort (PortNum (ofInt (- 1))) \<and> \<not> isValidPort (PortNum (ofInt 65536))
   \<and> isValidPort (PortStr (numToString 8080))
   \<and> \<not> isValidPort (PortStr ''invalid'')"
proof -
  have a: "isValidPort (PortNum (Fin 65535)) \<and> \<not> isValidPort (PortNum NaN)"
    using isValidPort_accepts [of "Fin 65535" 0 "[]"] isValidPort_accepts [of NaN 0 "[]"] by simp
  have b: "\<not> isValidPort (PortNum (ofInt 0)) \<and> \<not> isValidPort (PortNum (ofInt (- 1)))
      \<and> \<not> isValidPort (PortNum (ofInt 65536)) \<and> isValidPort (PortStr (numToString 8080))"
    using isValidPort_accepts [of NaN 0 "[]"] isValidPort_accepts [of NaN "- 1" "[]"]
      isValidPort_accepts [of NaN 65536 "[]"] isValidPort_accepts [of NaN 8080 "[]"] by simp
  have c: "\<not> isValidPort (PortStr ''invalid'')"
  proof
    assume "isValidPort (PortStr ''invalid'')"
    with isValidPort_accepts [of NaN 0 "''invalid''"]
    obtain ws sg ds rest where d: "''invalid'' = ws @ sg @ ds @ rest" "list_all isWhiteSpace ws"
      "sg = [] \<or> sg = ''+''" "ds \<noteq> []" "list_all isDigit ds"
      by blast
    from d(1,2) have "ws = []" by (cases ws) (auto simp: isWhiteSpace_def)
    with d(1,3) have "sg = []" by auto
    with d(1,4,5) \<open>ws = []\<close> show False by (cases ds) (auto simp: isDigit_def)
  qed
  from a b c show ?thesis by simp
qed

text \<open>
  Claim C1: \<open>isValidPort\<close> is to return \<open>true\<close> for the integers from 1 to 65535 only, and
  \<open>false\<close> for a number that is not an integer. It does not: the number 1.5, which is not
  an integer, is accepted, since the value is only compared with 0 and 65535; and so is
  the string \<open>22abc\<close>, of which \<open>parseInt\<close> reads the prefix 22.
\<close>

theorem isValidPort_accepts_fraction:
  "isValidPort (PortNum (Fin (3 / 2))) \<and> (3 / 2 :: rat) \<notin> \<int> \<and> isValidPort (PortStr ''22abc'')"
proof -
  have "(3 / 2 :: rat) \<notin> \<int>"
  proof
    assume "(3 / 2 :: rat) \<in> \<int>"
    then obtain k :: int where "(3 / 2 :: rat) = of_int k" by (auto elim: Ints_cases)
    then have "(of_int (2 * k) :: rat) = of_int 3" by simp
    then have "2 * k = 3" by (simp only: of_int_eq_iff)
    then show False by presburger
  qed
  moreover have "isValidPort (PortNum (Fin (3 / 2)))" by (simp add: isValidPort_def isNaN_def)
  moreover have "isValidPort (PortStr ''22abc'')" by code_simp
  ultimately show ?thesis by simp
qed


section \<open>Connection identifiers\<close>

lemma takeWhile_until: "c \<notin> set u \<Longrightarrow> takeWhile (\<lambda>x. x \<noteq> c) (u @ c # r) = u"
  by (induction u) auto

lemma dropWhile_until: "c \<notin> set u \<Longrightarrow> dropWhile (\<lambda>x. x \<noteq> c) (u @ c # r) = c # r"
  by (induction u) auto

lemma takeWhile_none: "c \<notin> set u \<Longrightarrow> takeWhile (\<lambda>x. x \<noteq> c) u = u"
  by (induction u) auto

lemma dropWhile_none: "c \<notin> set u \<Longrightarrow> dropWhile (\<lambda>x. x \<noteq> c) u = []"
  by (induction u) auto

lemma split_until:
  "dropWhile (\<lambda>x. x \<noteq> c) s = y # r \<Longrightarrow>
     y = c \<and> s = takeWhile (\<lambda>x. x \<noteq> c) s @ c # r \<and> c \<notin> set (takeWhile (\<lambda>x. x \<noteq> c) s)"
proof -
  assume d: "dropWhile (\<lambda>x. x \<noteq> c) s = y # r"
  from hd_dropWhile [of "\<lambda>x. x \<noteq> c" s] d have "y = c" by simp
  moreover have "s = takeWhile (\<lambda>x. x \<noteq> c) s @ dropWhile (\<lambda>x. x \<noteq> c) s" by simp
  moreover have "c \<notin> set (takeWhile (\<lambda>x. x \<noteq> c) s)" by (auto dest: set_takeWhileD)
  ultimately show ?thesis using d by simp
qed

lemma connectionIdMatch_shape:
  assumes "u \<noteq> []" "CHR ''@'' \<notin> set u" "h \<noteq> []" "CHR '':'' \<notin> set h"
  shows "connectionIdMatch (u @ ''@'' @ h @ '':'' @ ds)
           = (if ds \<noteq> [] \<and> list_all isDigit ds then Some (u, h, ds) else None)"
proof -
  have a: "takeWhile (\<lambda>c. c \<noteq> CHR ''@'') (u @ CHR ''@'' # h @ CHR '':'' # ds) = u"
    using assms(2) by (rule takeWhile_until)
  have b: "dropWhile (\<lambda>c. c \<noteq> CHR ''@'') (u @ CHR ''@'' # h @ CHR '':'' # ds) = CHR ''@'' # h @ CHR '':'' # ds"
    using assms(2) by (rule dropWhile_until)
  have c: "takeWhile (\<lambda>c. c \<noteq> CHR '':'') (h @ CHR '':'' # ds) = h"
    using assms(4) by (rule takeWhile_until)
  have d: "dropWhile (\<lambda>c. c \<noteq> CHR '':'') (h @ CHR '':'' # ds) = CHR '':'' # ds"
    using assms(4) by (rule dropWhile_until)
  show ?thesis
    using assms(1,3) by (simp add: connectionIdMatch_def Let_def a b c d)
qed

lemma connectionIdMatch_build:
  assumes "u \<noteq> []" "CHR ''@'' \<notin> set u" "h \<noteq> []" "CHR '':'' \<notin> set h" "ds \<noteq> []" "list_all isDigit ds"
  shows "connectionIdMatch (u @ ''@'' @ h @ '':'' @ ds) = Some (u, h, ds)"
  using connectionIdMatch_shape [OF assms(1-4), of ds] assms(5,6) by simp

lemma connectionIdMatch_Some:
  assumes "connectionIdMatch s = Some (u, h, ds)"
  shows "s = u @ ''@'' @ h @ '':'' @ ds \<and> u \<noteq> [] \<and> CHR ''@'' \<notin> set u \<and> h \<noteq> []
           \<and> CHR '':'' \<notin> set h \<and> ds \<noteq> [] \<and> list_all isDigit ds"
proof -
  define r where "r = dropWhile (\<lambda>c. c \<noteq> CHR ''@'') s"
  define r' where "r' = dropWhile (\<lambda>c. c \<noteq> CHR '':'') (tl r)"
  have m: "connectionIdMatch s =
      (if takeWhile (\<lambda>c. c \<noteq> CHR ''@'') s = [] \<or> r = [] then None
       else if takeWhile (\<lambda>c. c \<noteq> CHR '':'') (tl r) = [] \<or> r' = [] then None
       else if tl r' \<noteq> [] \<and> list_all isDigit (tl r')
         then Some (takeWhile (\<lambda>c. c \<noteq> CHR ''@'') s, takeWhile (\<lambda>c. c \<noteq> CHR '':'') (tl r), tl r')
       else None)"
    unfolding r'_def r_def connectionIdMatch_def Let_def by (rule refl)
  from assms m have u: "u = takeWhile (\<lambda>c. c \<noteq> CHR ''@'') s" "u \<noteq> []" "r \<noteq> []"
    and h: "h = takeWhile (\<lambda>c. c \<noteq> CHR '':'') (tl r)" "h \<noteq> []" "r' \<noteq> []"
    and ds: "ds = tl r'" "ds \<noteq> []" "list_all isDigit ds"
    by (auto split: if_splits)
  from u(3) obtain y t where r: "r = y # t" by (cases r) auto
  from h(3) obtain z t' where r'': "r' = z # t'" by (cases r') auto
  from split_until [of "CHR ''@''" s y t] r have 1: "s = u @ CHR ''@'' # t" "CHR ''@'' \<notin> set u"
    by (simp_all add: r_def u(1))
  from split_until [of "CHR '':''" t z t'] r r'' have 2: "t = h @ CHR '':'' # t'" "CHR '':'' \<notin> set h"
    by (simp_all add: r'_def h(1))
  from ds(1) r'' have "ds = t'" by simp
  with 1 2 u(2) h(2) ds(2,3) show ?thesis by simp
qed

lemma parseConnectionId_None:
  "parseConnectionId s = None \<longleftrightarrow> connectionIdMatch s = None"
  by (cases "connectionIdMatch s") (auto simp: parseConnectionId_def)

subsection \<open>The digits printed for a port\<close>

lemma bestAt_Some: "bestAt x p = Some c \<Longrightarrow> toDouble c = Some x"
  unfolding bestAt_def Let_def by (auto split: if_splits)

lemma shortestFrom_double: "toDouble x = Some x \<Longrightarrow> toDouble (shortestFrom x j) = Some x"
proof (induction j)
  case 0
  then show ?case by simp
next
  case (Suc j)
  show ?case
  proof (cases "bestAt x (10 ^ Suc j)")
    case None
    with Suc show ?thesis by simp
  next
    case (Some c)
    from bestAt_Some [OF this] Some show ?thesis by simp
  qed
qed

lemma shortest_double: "toDouble x = Some x \<Longrightarrow> toDouble (shortest x) = Some x"
  unfolding shortest_def by (rule shortestFrom_double)

text \<open>The exponent notation has an \<open>e\<close>, so digits alone are the digits in full.\<close>

lemma formatDigits_plain:
  assumes "list_all isDigit (formatDigits c)"
  shows "formatDigits c = decimalDigits c"
proof (cases "length (decimalDigits c) \<le> 21")
  case True
  then show ?thesis by (simp add: formatDigits_def Let_def)
next
  case False
  have "\<not> isDigit (CHR ''e'')" by (simp add: isDigit_def)
  moreover from False have "CHR ''e'' \<in> set (formatDigits c)"
    by (simp add: formatDigits_def Let_def)
  ultimately show ?thesis using assms by (auto simp: list_all_iff)
qed

text \<open>
  A double is printed in digits alone exactly when it is not negative and below \<open>10^21\<close>.
\<close>

lemma length_decimalDigits: "0 < k \<Longrightarrow> n < 10 ^ k \<Longrightarrow> length (decimalDigits n) \<le> k"
proof (induction n arbitrary: k rule: decimalDigits.induct)
  case (1 n)
  show ?case
  proof (cases "n < 10")
    case True
    with "1.prems" show ?thesis by (simp add: decimalDigits.simps [of n])
  next
    case False
    from False "1.prems" have k: "1 < k"
    proof -
      have "\<not> k = 1" using False "1.prems"(2) by auto
      with "1.prems"(1) show ?thesis by simp
    qed
    then obtain k' where k': "k = Suc k'" "0 < k'" by (cases k) auto
    from "1.prems"(2) k' have "n div 10 < 10 ^ k'" by simp
    with "1.IH" [OF False k'(2)] have "length (decimalDigits (n div 10)) \<le> k'" by simp
    with False k' show ?thesis by (simp add: decimalDigits.simps [of n])
  qed
qed

lemma length_decimalDigits_ge: "10 ^ k \<le> n \<Longrightarrow> k < length (decimalDigits n)"
proof (induction n arbitrary: k rule: decimalDigits.induct)
  case (1 n)
  show ?case
  proof (cases k)
    case 0
    with decimalDigits_digits [of n] show ?thesis by (cases "decimalDigits n") simp_all
  next
    case (Suc k')
    with "1.prems" have ge: "10 * 10 ^ k' \<le> n" by simp
    have "(1::int) \<le> 10 ^ k'" by simp
    with ge have n10: "\<not> n < 10" by linarith
    from ge have "10 ^ k' \<le> n div 10" by simp
    from "1.IH" [OF n10 this] n10 Suc show ?thesis by (simp add: decimalDigits.simps [of n])
  qed
qed

lemma formatDigits_exponent:
  assumes "21 < length (decimalDigits c)"
  shows "\<not> list_all isDigit (formatDigits c)"
proof
  assume "list_all isDigit (formatDigits c)"
  from formatDigits_plain [OF this] have "formatDigits c = decimalDigits c" .
  moreover from assms have "CHR ''e'' \<in> set (formatDigits c)"
    by (simp add: formatDigits_def Let_def)
  moreover have "\<not> isDigit (CHR ''e'')" by (simp add: isDigit_def)
  ultimately show False using decimalDigits_digits [of c] by (auto simp: list_all_iff)
qed

lemma numToString_negative: "p < 0 \<Longrightarrow> \<not> list_all isDigit (numToString p)"
proof
  assume "p < 0" and a: "list_all isDigit (numToString p)"
  then have "CHR ''-'' \<in> set (numToString p)" by (simp add: numToString_def)
  with a have "isDigit (CHR ''-'')" by (auto simp: list_all_iff)
  then show False by (simp add: isDigit_def)
qed

lemma numToString_below:
  assumes "isDouble p" "0 \<le> p" "p < 10 ^ 21"
  shows "list_all isDigit (numToString p)"
proof -
  from assms(1,2) have dp: "toDouble p = Some p" by (simp add: isDouble_def)
  with assms(2) have s: "numToString p = (if p < 2 ^ 53 then decimalDigits p else formatDigits (shortest p))"
    by (simp add: numToString_def)
  define c where "c = shortest p"
  from dp have dc: "toDouble c = Some p" unfolding c_def by (rule shortest_double)
  have "c < 10 ^ 21"
  proof (rule ccontr)
    assume "\<not> c < 10 ^ 21"
    then have "10 ^ 21 \<le> c" by simp
    from toDouble_above [OF this dc] assms(3) show False by simp
  qed
  then have "length (decimalDigits c) \<le> 21" by (intro length_decimalDigits) simp_all
  then have "formatDigits c = decimalDigits c" by (simp add: formatDigits_def Let_def)
  with s show ?thesis
    using decimalDigits_digits [of p] decimalDigits_digits [of c] by (simp add: c_def)
qed


lemma numToString_above:
  assumes "isDouble p" "10 ^ 21 \<le> p"
  shows "\<not> list_all isDigit (numToString p)"
proof (cases "p = 10 ^ 21")
  case True
  have "\<not> list_all isDigit (numToString (10 ^ 21))" by code_simp
  with True show ?thesis by simp
next
  case False
  with assms(2) have gt: "10 ^ 21 < p" by simp
  then have p0: "0 \<le> p" by simp
  with assms(1) have dp: "toDouble p = Some p" by (simp add: isDouble_def)
  from gt have "\<not> p < 2 ^ 53" by simp
  with dp p0 have s: "numToString p = formatDigits (shortest p)"
    by (simp add: numToString_def)
  define c where "c = shortest p"
  from dp have dc: "toDouble c = Some p" unfolding c_def by (rule shortest_double)
  have "10 ^ 21 \<le> c"
  proof (rule ccontr)
    assume "\<not> 10 ^ 21 \<le> c"
    then have "c < 10 ^ 21" by simp
    from toDouble_below [OF this dc] gt show False by simp
  qed
  then have "21 < length (decimalDigits c)" by (rule length_decimalDigits_ge)
  from formatDigits_exponent [OF this] s show ?thesis by (simp add: c_def)
qed

lemma numToString_digits_iff:
  "isDouble p \<Longrightarrow> list_all isDigit (numToString p) \<longleftrightarrow> 0 \<le> p \<and> p < 10 ^ 21"
  using numToString_below [of p] numToString_above [of p] numToString_negative [of p]
  by (cases "p < 0"; cases "p < 10 ^ 21") auto

text \<open>
  A port that is a number as it stands and prints as digits alone is not negative, and
  the digits printed are those of an integer with the port as its number value.
\<close>

lemma numToString_decimal:
  assumes "isDouble p" and "list_all isDigit (numToString p)"
  shows "0 \<le> p \<and> (\<exists>c. 0 \<le> c \<and> numToString p = decimalDigits c \<and> toNumber c = ofInt p)"
proof -
  have nn: "0 \<le> p"
  proof (rule ccontr)
    assume "\<not> 0 \<le> p"
    then have "hd (numToString p) = CHR ''-''" by (simp add: numToString_def)
    moreover have "numToString p \<noteq> []" using \<open>\<not> 0 \<le> p\<close> by (simp add: numToString_def)
    ultimately have "CHR ''-'' \<in> set (numToString p)" using hd_in_set by metis
    with assms(2) have "isDigit (CHR ''-'')" by (auto simp: list_all_iff)
    then show False by (simp add: isDigit_def)
  qed
  with assms(1) have dp: "toDouble p = Some p" by (simp add: isDouble_def)
  with nn have s: "numToString p = (if p < 2 ^ 53 then decimalDigits p else formatDigits (shortest p))"
    by (simp add: numToString_def)
  from dp nn have tp: "toNumber p = ofInt p" by (simp add: toNumber_def)
  show ?thesis
  proof (cases "p < 2 ^ 53")
    case True
    with s nn tp show ?thesis by auto
  next
    case False
    define c where "c = shortest p"
    from dp have dc: "toDouble c = Some p" unfolding c_def by (rule shortest_double)
    have c0: "0 \<le> c"
    proof (rule ccontr)
      assume "\<not> 0 \<le> c"
      then have "c < 2 ^ 53" by simp
      from toDouble_small [OF this] dc have "c = p" by simp
      with nn \<open>\<not> 0 \<le> c\<close> show False by simp
    qed
    from False s have f: "numToString p = formatDigits c" by (simp add: c_def)
    with assms(2) have "list_all isDigit (formatDigits c)" by simp
    from formatDigits_plain [OF this] f have "numToString p = decimalDigits c" by simp
    moreover from c0 dc have "toNumber c = ofInt p" by (simp add: toNumber_def)
    ultimately show ?thesis using nn c0 by blast
  qed
qed

text \<open>
  Claim C10. Take a record whose user is not empty and has no \<open>@\<close>, whose host is not
  empty and has no colon, and whose port is a number that JavaScript writes in decimal
  digits alone: \<open>parseConnectionId\<close> of \<open>buildConnectionId\<close> of the record is the
  record, with the same user, host and port. The ports written in digits alone are the
  integer-valued numbers from 0 to below \<open>10^21\<close>; every integer from 0 to below \<open>2^53\<close>
  is one, printed with its own digits. When the port is not written in digits alone, the
  identifier built is not read back: \<open>parseConnectionId\<close> returns \<open>null\<close> on it.
  \<open>parseConnectionId\<close> returns \<open>null\<close> exactly on the strings that are not a user (not
  empty, without \<open>@\<close>), an \<open>@\<close>, a host (not empty, without colon), a colon and one
  or more digits.
\<close>

theorem connectionId_roundtrip:
  "(user r \<noteq> [] \<and> CHR ''@'' \<notin> set (user r) \<and> host r \<noteq> [] \<and> CHR '':'' \<notin> set (host r)
      \<and> isDouble (port r) \<and> list_all isDigit (numToString (port r))
    \<longrightarrow> parseConnectionId (buildConnectionId r)
          = Some \<lparr>id_host = host r, id_user = user r, id_port = ofInt (port r)\<rparr>)
   \<and> (isDouble (port r)
        \<longrightarrow> (list_all isDigit (numToString (port r)) \<longleftrightarrow> 0 \<le> port r \<and> port r < 10 ^ 21))
   \<and> (0 \<le> port r \<and> port r < 2 ^ 53
        \<longrightarrow> isDouble (port r) \<and> numToString (port r) = decimalDigits (port r))
   \<and> (user r \<noteq> [] \<and> CHR ''@'' \<notin> set (user r) \<and> host r \<noteq> [] \<and> CHR '':'' \<notin> set (host r)
      \<and> \<not> list_all isDigit (numToString (port r))
    \<longrightarrow> parseConnectionId (buildConnectionId r) = None)
   \<and> (parseConnectionId s = None \<longleftrightarrow>
        \<not> (\<exists>u h ds. s = u @ ''@'' @ h @ '':'' @ ds \<and> u \<noteq> [] \<and> CHR ''@'' \<notin> set u \<and> h \<noteq> []
              \<and> CHR '':'' \<notin> set h \<and> ds \<noteq> [] \<and> list_all isDigit ds))"
  for r :: HostUserPort
proof (intro conjI impI)
  assume a: "user r \<noteq> [] \<and> CHR ''@'' \<notin> set (user r) \<and> host r \<noteq> [] \<and> CHR '':'' \<notin> set (host r)
      \<and> isDouble (port r) \<and> list_all isDigit (numToString (port r))"
  with numToString_decimal [of "port r"] obtain c where
    c: "0 \<le> c" "numToString (port r) = decimalDigits c" "toNumber c = ofInt (port r)" by blast
  let ?ds = "decimalDigits c"
  from c(2) have b: "buildConnectionId r = user r @ ''@'' @ host r @ '':'' @ ?ds"
    by (simp add: buildConnectionId_def)
  have d: "?ds \<noteq> []" "list_all isDigit ?ds" using decimalDigits_digits [of c] by simp_all
  from a d have "connectionIdMatch (user r @ ''@'' @ host r @ '':'' @ ?ds) = Some (user r, host r, ?ds)"
    by (intro connectionIdMatch_build) simp_all
  moreover from c(1) have "mathInt ?ds = Some c"
    using mathInt_digits [OF d] by (simp add: digitsValue_decimalDigits)
  ultimately show "parseConnectionId (buildConnectionId r)
          = Some \<lparr>id_host = host r, id_user = user r, id_port = ofInt (port r)\<rparr>"
    unfolding b using c(3) by (simp add: parseConnectionId_def parseInt_def)
next
  assume "isDouble (port r)"
  then show "list_all isDigit (numToString (port r)) \<longleftrightarrow> 0 \<le> port r \<and> port r < 10 ^ 21"
    by (rule numToString_digits_iff)
next
  assume a: "0 \<le> port r \<and> port r < 2 ^ 53"
  then have "\<bar>port r\<bar> < 2 ^ 53" by simp
  from toDouble_small [OF this] show "isDouble (port r)" by (simp add: isDouble_def)
  from a \<open>\<bar>port r\<bar> < 2 ^ 53\<close> show "numToString (port r) = decimalDigits (port r)"
    by (simp add: numToString_small)
next
  assume a: "user r \<noteq> [] \<and> CHR ''@'' \<notin> set (user r) \<and> host r \<noteq> [] \<and> CHR '':'' \<notin> set (host r)
      \<and> \<not> list_all isDigit (numToString (port r))"
  then have "connectionIdMatch (user r @ ''@'' @ host r @ '':'' @ numToString (port r)) = None"
    using connectionIdMatch_shape [of "user r" "host r" "numToString (port r)"] by simp
  then show "parseConnectionId (buildConnectionId r) = None"
    by (simp add: parseConnectionId_def buildConnectionId_def)
next
  show "parseConnectionId s = None \<longleftrightarrow>
        \<not> (\<exists>u h ds. s = u @ ''@'' @ h @ '':'' @ ds \<and> u \<noteq> [] \<and> CHR ''@'' \<notin> set u \<and> h \<noteq> []
              \<and> CHR '':'' \<notin> set h \<and> ds \<noteq> [] \<and> list_all isDigit ds)"
    (is "_ \<longleftrightarrow> \<not> ?D")
  proof -
    have "connectionIdMatch s \<noteq> None \<longleftrightarrow> ?D"
    proof
      assume "connectionIdMatch s \<noteq> None"
      then obtain u h ds where "connectionIdMatch s = Some (u, h, ds)" by (cases "connectionIdMatch s") auto
      from connectionIdMatch_Some [OF this] show ?D by blast
    next
      assume ?D
      then obtain u h ds where "s = u @ ''@'' @ h @ '':'' @ ds" "u \<noteq> []" "CHR ''@'' \<notin> set u" "h \<noteq> []"
         "CHR '':'' \<notin> set h" "ds \<noteq> []" "list_all isDigit ds" by blast
      with connectionIdMatch_build [of u h ds] show "connectionIdMatch s \<noteq> None" by simp
    qed
    then show ?thesis unfolding parseConnectionId_None by blast
  qed
qed

theorem connectionId_roundtrip_witness:
  "parseConnectionId (buildConnectionId \<lparr>host = ''192.168.1.1'', user = ''root'', port = 2222\<rparr>)
     = Some \<lparr>id_host = ''192.168.1.1'', id_user = ''root'', id_port = ofInt 2222\<rparr>
   \<and> parseConnectionId (buildConnectionId \<lparr>host = ''example.com'', user = ''admin'', port = 2 ^ 64\<rparr>)
     = Some \<lparr>id_host = ''example.com'', id_user = ''admin'', id_port = ofInt (2 ^ 64)\<rparr>
   \<and> numToString 2222 = decimalDigits 2222
   \<and> parseConnectionId (buildConnectionId \<lparr>host = ''example.com'', user = ''admin'', port = 10 ^ 21\<rparr>)
     = None
   \<and> parseConnectionId ''user@host'' = None"
proof -
  let ?r = "\<lparr>host = ''192.168.1.1'', user = ''root'', port = 2222\<rparr>"
  let ?b = "\<lparr>host = ''example.com'', user = ''admin'', port = 2 ^ 64\<rparr>"
  let ?e = "\<lparr>host = ''example.com'', user = ''admin'', port = 10 ^ 21\<rparr>"
  have h: "isDouble 2222" "isDouble (2 ^ 64)" "isDouble (10 ^ 21)"
    by code_simp+
  have d: "list_all isDigit (numToString 2222)" "list_all isDigit (numToString (2 ^ 64))"
    "\<not> list_all isDigit (numToString (10 ^ 21))"
    using connectionId_roundtrip [of ?r "[]", THEN conjunct2, THEN conjunct1]
      connectionId_roundtrip [of ?b "[]", THEN conjunct2, THEN conjunct1]
      connectionId_roundtrip [of ?e "[]", THEN conjunct2, THEN conjunct1] h by simp_all
  have 1: "parseConnectionId (buildConnectionId ?r)
     = Some \<lparr>id_host = ''192.168.1.1'', id_user = ''root'', id_port = ofInt 2222\<rparr>"
    using connectionId_roundtrip [of ?r "[]", THEN conjunct1] h(1) d(1) by simp
  have 2: "parseConnectionId (buildConnectionId ?b)
     = Some \<lparr>id_host = ''example.com'', id_user = ''admin'', id_port = ofInt (2 ^ 64)\<rparr>"
    using connectionId_roundtrip [of ?b "[]", THEN conjunct1] h(2) d(2) by simp
  have 3: "numToString 2222 = decimalDigits 2222"
    using connectionId_roundtrip [of ?r "[]", THEN conjunct2, THEN conjunct2, THEN conjunct1] by simp
  have 4: "parseConnectionId (buildConnectionId ?e) = None"
    using connectionId_roundtrip [of ?e "[]", THEN conjunct2, THEN conjunct2, THEN conjunct2, THEN conjunct1]
      d(3) by simp
  have 5: "parseConnectionId ''user@host'' = None"
  proof -
    have "\<not> (\<exists>u h ds. ''user@host'' = u @ ''@'' @ h @ '':'' @ ds \<and> u \<noteq> [] \<and> CHR ''@'' \<notin> set u \<and> h \<noteq> []
              \<and> CHR '':'' \<notin> set h \<and> ds \<noteq> [] \<and> list_all isDigit ds)"
    proof
      assume "\<exists>u h ds. ''user@host'' = u @ ''@'' @ h @ '':'' @ ds \<and> u \<noteq> [] \<and> CHR ''@'' \<notin> set u \<and> h \<noteq> []
              \<and> CHR '':'' \<notin> set h \<and> ds \<noteq> [] \<and> list_all isDigit ds"
      then obtain u h ds where e: "''user@host'' = u @ ''@'' @ h @ '':'' @ ds" by blast
      have "CHR '':'' \<in> set (u @ ''@'' @ h @ '':'' @ ds)" by simp
      with e have "CHR '':'' \<in> set ''user@host''" by simp
      then show False by simp
    qed
    with connectionId_roundtrip [of ?r "''user@host''", THEN conjunct2, THEN conjunct2, THEN conjunct2,
        THEN conjunct2]
    show ?thesis by blast
  qed
  from 1 2 3 4 5 show ?thesis by simp
qed

text \<open>
  From \<open>10^21\<close> on a port is printed with an exponent, and a negative one with a sign:
  the identifier built is not one that \<open>parseConnectionId\<close> reads. Of a port written with
  more digits than a double holds, the nearest double is read.
\<close>

lemma connectionId_examples:
  "buildConnectionId \<lparr>host = ''h'', user = ''u'', port = 10 ^ 21\<rparr> = ''u@h:1e+21''
   \<and> parseConnectionId ''u@h:1e+21'' = None
   \<and> buildConnectionId \<lparr>host = ''h'', user = ''u'', port = - 1\<rparr> = ''u@h:-1''
   \<and> parseConnectionId ''u@h:-1'' = None
   \<and> parseConnectionId ''u@h:9007199254740993''
       = Some \<lparr>id_host = ''h'', id_user = ''u'', id_port = ofInt 9007199254740992\<rparr>"
  by code_simp


section \<open>Quick connect strings\<close>

lemma hostPort_Some:
  "hostPort s = Some (h, p) \<longleftrightarrow>
     h \<noteq> [] \<and> CHR '':'' \<notin> set h
     \<and> ((p = None \<and> s = h) \<or> (\<exists>ds. p = Some ds \<and> s = h @ '':'' @ ds \<and> ds \<noteq> [] \<and> list_all isDigit ds))"
  (is "?L \<longleftrightarrow> ?R")
proof
  assume L: ?L
  define r where "r = dropWhile (\<lambda>c. c \<noteq> CHR '':'') s"
  have hp: "hostPort s =
      (if takeWhile (\<lambda>c. c \<noteq> CHR '':'') s = [] then None
       else (case r of [] \<Rightarrow> Some (takeWhile (\<lambda>c. c \<noteq> CHR '':'') s, None)
             | _ # ds \<Rightarrow> if ds \<noteq> [] \<and> list_all isDigit ds
                          then Some (takeWhile (\<lambda>c. c \<noteq> CHR '':'') s, Some ds) else None))"
    unfolding r_def hostPort_def Let_def by (rule refl)
  have nin: "CHR '':'' \<notin> set (takeWhile (\<lambda>c. c \<noteq> CHR '':'') s)" by (auto dest: set_takeWhileD)
  show ?R
  proof (cases r)
    case Nil
    with L hp have h: "h = takeWhile (\<lambda>c. c \<noteq> CHR '':'') s" "h \<noteq> []" "p = None"
      by (auto split: if_splits)
    have e: "takeWhile (\<lambda>c. c \<noteq> CHR '':'') s @ r = s"
      unfolding r_def by (rule takeWhile_dropWhile_id)
    have "s = takeWhile (\<lambda>c. c \<noteq> CHR '':'') s"
      by (rule e [unfolded Nil append_Nil2, symmetric])
    with h nin show ?thesis by simp
  next
    case (Cons y ds)
    with L hp have h: "h = takeWhile (\<lambda>c. c \<noteq> CHR '':'') s" "h \<noteq> []" "p = Some ds" "ds \<noteq> []"
        "list_all isDigit ds"
      by (auto split: if_splits)
    from split_until [of "CHR '':''" s y ds] Cons have "s = h @ CHR '':'' # ds"
      by (simp add: r_def h(1))
    with h nin show ?thesis by simp
  qed
next
  assume R: ?R
  then have h: "h \<noteq> []" "CHR '':'' \<notin> set h" by simp_all
  from R consider "p = None" "s = h"
    | ds where "p = Some ds" "s = h @ '':'' @ ds" "ds \<noteq> []" "list_all isDigit ds" by blast
  then show ?L
  proof cases
    case 1
    with h show ?thesis by (simp add: hostPort_def Let_def takeWhile_none dropWhile_none)
  next
    case 2
    with h show ?thesis by (simp add: hostPort_def Let_def takeWhile_until dropWhile_until)
  qed
qed

lemma hostPort_None:
  "hostPort s = None \<longleftrightarrow>
     \<not> (\<exists>h po. s = h @ (case po of None \<Rightarrow> [] | Some ds \<Rightarrow> '':'' @ ds) \<and> h \<noteq> [] \<and> CHR '':'' \<notin> set h
           \<and> (\<forall>ds. po = Some ds \<longrightarrow> ds \<noteq> [] \<and> list_all isDigit ds))"
  (is "_ \<longleftrightarrow> \<not> ?D")
proof -
  have "hostPort s \<noteq> None \<longleftrightarrow> ?D"
  proof
    assume "hostPort s \<noteq> None"
    then obtain h p where "hostPort s = Some (h, p)" by (cases "hostPort s") auto
    then have c: "h \<noteq> [] \<and> CHR '':'' \<notin> set h
     \<and> ((p = None \<and> s = h) \<or> (\<exists>ds. p = Some ds \<and> s = h @ '':'' @ ds \<and> ds \<noteq> [] \<and> list_all isDigit ds))"
      unfolding hostPort_Some by assumption
    have "s = h @ (case p of None \<Rightarrow> [] | Some ds \<Rightarrow> '':'' @ ds) \<and> h \<noteq> [] \<and> CHR '':'' \<notin> set h
           \<and> (\<forall>ds. p = Some ds \<longrightarrow> ds \<noteq> [] \<and> list_all isDigit ds)"
      using c by (cases p) auto
    then show ?D by blast
  next
    assume ?D
    then obtain h po where d: "s = h @ (case po of None \<Rightarrow> [] | Some ds \<Rightarrow> '':'' @ ds)" "h \<noteq> []"
      "CHR '':'' \<notin> set h" "\<forall>ds. po = Some ds \<longrightarrow> ds \<noteq> [] \<and> list_all isDigit ds" by blast
    have "hostPort s = Some (h, po)"
      unfolding hostPort_Some using d by (cases po) auto
    then show "hostPort s \<noteq> None" by simp
  qed
  then show ?thesis by blast
qed

lemma quickConnectMatch_Some:
  assumes "quickConnectMatch s = Some (uo, h, po)"
  shows "s = (case uo of None \<Rightarrow> [] | Some u \<Rightarrow> u @ ''@'') @ h @ (case po of None \<Rightarrow> [] | Some ds \<Rightarrow> '':'' @ ds)
         \<and> (\<forall>u. uo = Some u \<longrightarrow> u \<noteq> [] \<and> CHR ''@'' \<notin> set u) \<and> h \<noteq> [] \<and> CHR '':'' \<notin> set h
         \<and> (\<forall>ds. po = Some ds \<longrightarrow> ds \<noteq> [] \<and> list_all isDigit ds)"
proof -
  define u where "u = takeWhile (\<lambda>c. c \<noteq> CHR ''@'') s"
  define r where "r = dropWhile (\<lambda>c. c \<noteq> CHR ''@'') s"
  define withUser where "withUser = (if u = [] \<or> r = [] then None
                      else map_option (\<lambda>(h, p). (Some u, h, p)) (hostPort (tl r)))"
  have m: "quickConnectMatch s = (case withUser of Some m \<Rightarrow> Some m
         | None \<Rightarrow> map_option (\<lambda>(h, p). (None, h, p)) (hostPort s))"
    unfolding withUser_def u_def r_def quickConnectMatch_def Let_def by (rule refl)
  have hp: "hostPort x = Some (h, po) \<Longrightarrow>
     x = h @ (case po of None \<Rightarrow> [] | Some ds \<Rightarrow> '':'' @ ds) \<and> h \<noteq> [] \<and> CHR '':'' \<notin> set h
         \<and> (\<forall>ds. po = Some ds \<longrightarrow> ds \<noteq> [] \<and> list_all isDigit ds)" for x
    unfolding hostPort_Some by auto
  show ?thesis
  proof (cases withUser)
    case None
    with assms m have "uo = None" "hostPort s = Some (h, po)" by auto
    with hp [of s] show ?thesis by simp
  next
    case (Some m')
    with assms m have w: "withUser = Some (uo, h, po)" by simp
    then have un: "u \<noteq> []" and rn: "r \<noteq> []" and uo: "uo = Some u" and h: "hostPort (tl r) = Some (h, po)"
      by (auto simp: withUser_def split: if_splits)
    from rn obtain y t where r: "r = y # t" by (cases r) auto
    from split_until [of "CHR ''@''" s y t] r have "s = u @ CHR ''@'' # t" "CHR ''@'' \<notin> set u"
      by (simp_all add: r_def u_def)
    with hp [of t] h r un uo show ?thesis by simp
  qed
qed

lemma quickConnectMatch_None:
  "quickConnectMatch s = None \<longleftrightarrow>
     \<not> (\<exists>uo h po. s = (case uo of None \<Rightarrow> [] | Some u \<Rightarrow> u @ ''@'') @ h
                         @ (case po of None \<Rightarrow> [] | Some ds \<Rightarrow> '':'' @ ds)
           \<and> (\<forall>u. uo = Some u \<longrightarrow> u \<noteq> [] \<and> CHR ''@'' \<notin> set u) \<and> h \<noteq> [] \<and> CHR '':'' \<notin> set h
           \<and> (\<forall>ds. po = Some ds \<longrightarrow> ds \<noteq> [] \<and> list_all isDigit ds))"
  (is "_ \<longleftrightarrow> \<not> ?D")
proof -
  have "quickConnectMatch s \<noteq> None \<longleftrightarrow> ?D"
  proof
    assume "quickConnectMatch s \<noteq> None"
    then obtain uo h po where "quickConnectMatch s = Some (uo, h, po)"
      by (cases "quickConnectMatch s") auto
    from quickConnectMatch_Some [OF this] show ?D by blast
  next
    assume ?D
    then obtain uo h po where d: "s = (case uo of None \<Rightarrow> [] | Some u \<Rightarrow> u @ ''@'') @ h
                         @ (case po of None \<Rightarrow> [] | Some ds \<Rightarrow> '':'' @ ds)"
      "\<forall>u. uo = Some u \<longrightarrow> u \<noteq> [] \<and> CHR ''@'' \<notin> set u" "h \<noteq> []" "CHR '':'' \<notin> set h"
      "\<forall>ds. po = Some ds \<longrightarrow> ds \<noteq> [] \<and> list_all isDigit ds" by blast
    let ?t = "h @ (case po of None \<Rightarrow> [] | Some ds \<Rightarrow> '':'' @ ds)"
    have ht: "hostPort ?t = Some (h, po)"
      unfolding hostPort_Some using d(3,4,5) by (cases po) auto
    show "quickConnectMatch s \<noteq> None"
    proof (cases uo)
      case None
      with d(1) ht have "hostPort s = Some (h, po)" by simp
      then show ?thesis by (simp add: quickConnectMatch_def Let_def split: option.splits)
    next
      case (Some u)
      with d(2) have u: "u \<noteq> []" "CHR ''@'' \<notin> set u" by simp_all
      from Some d(1) have s: "s = u @ CHR ''@'' # ?t" by simp
      have "takeWhile (\<lambda>c. c \<noteq> CHR ''@'') s = u" "dropWhile (\<lambda>c. c \<noteq> CHR ''@'') s = CHR ''@'' # ?t"
        unfolding s using u(2) by (rule takeWhile_until dropWhile_until)+
      with u(1) ht show ?thesis by (simp add: quickConnectMatch_def Let_def)
    qed
  qed
  then show ?thesis by blast
qed


lemma parseQuickConnect_matched:
  assumes t: "sanitize (trim input) \<noteq> []"
    and m: "quickConnectMatch (sanitize (trim input)) = Some (uo, h, po)"
  shows "parseQuickConnect input =
     (if \<not> isValidHost h \<or> (\<exists>u. uo = Some u \<and> \<not> isValidUser u)
          \<or> (\<exists>ds. po = Some ds \<and> \<not> isValidPort (PortStr ds)) then None
      else Some \<lparr>qc_user = uo, qc_host = h,
                 qc_port = map_option (\<lambda>ds. ofInt (digitsValue ds)) po\<rparr>)"
proof -
  from quickConnectMatch_Some [OF m]
  have u: "\<forall>u. uo = Some u \<longrightarrow> u \<noteq> []" and d: "\<forall>ds. po = Some ds \<longrightarrow> ds \<noteq> [] \<and> list_all isDigit ds"
    by simp_all
  have tu: "truthy uo \<longleftrightarrow> uo \<noteq> None" using u by (cases uo) (simp_all add: truthy_def)
  have tp: "truthy po \<longleftrightarrow> po \<noteq> None" using d by (cases po) (simp_all add: truthy_def)
  have pn: "po = Some ds \<Longrightarrow> parseInt ds = toNumber (digitsValue ds)" for ds
    using d mathInt_digits [of ds] by (simp add: parseInt_def)
  have pv: "po = Some ds \<Longrightarrow> isValidPort (PortStr ds) = isValidPort (PortNum (parseInt ds))" for ds
    by (rule isValidPort_PortStr)
  have pp: "po = Some ds \<Longrightarrow> isValidPort (PortNum (parseInt ds))
              \<Longrightarrow> parseInt ds = ofInt (digitsValue ds)" for ds
    using pn [of ds] toNumber_valid [of "digitsValue ds"] by simp
  show ?thesis
  proof (cases uo; cases po)
    fix a b assume c: "uo = Some a" "po = Some b"
    show ?thesis
    proof (cases "isValidPort (PortNum (parseInt b))")
      case True
      with c t m tu tp pv [of b] pp [of b] show ?thesis
        by (simp add: parseQuickConnect_def Let_def)
    next
      case False
      with c t m tu tp pv [of b] show ?thesis
        by (simp add: parseQuickConnect_def Let_def)
    qed
  next
    fix a assume "uo = Some a" "po = None"
    then show ?thesis using t m tu tp
      by (simp add: parseQuickConnect_def Let_def)
  next
    fix b assume c: "uo = None" "po = Some b"
    show ?thesis
    proof (cases "isValidPort (PortNum (parseInt b))")
      case True
      with c t m tu tp pv [of b] pp [of b] show ?thesis
        by (simp add: parseQuickConnect_def Let_def)
    next
      case False
      with c t m tu tp pv [of b] show ?thesis
        by (simp add: parseQuickConnect_def Let_def)
    qed
  next
    assume "uo = None" "po = None"
    then show ?thesis using t m tu tp
      by (simp add: parseQuickConnect_def Let_def)
  qed
qed

lemma parseQuickConnect_None:
  "parseQuickConnect input = None \<longleftrightarrow>
     sanitize (trim input) = [] \<or> quickConnectMatch (sanitize (trim input)) = None
     \<or> (\<exists>uo h po. quickConnectMatch (sanitize (trim input)) = Some (uo, h, po)
           \<and> (\<not> isValidHost h \<or> (\<exists>u. uo = Some u \<and> \<not> isValidUser u)
                \<or> (\<exists>ds. po = Some ds \<and> \<not> isValidPort (PortStr ds))))"
proof (cases "sanitize (trim input) = []")
  case True
  then show ?thesis by (simp add: parseQuickConnect_def)
next
  case False
  show ?thesis
  proof (cases "quickConnectMatch (sanitize (trim input))")
    case None
    with False show ?thesis by (simp add: parseQuickConnect_def)
  next
    case (Some m)
    obtain uo h po where m: "m = (uo, h, po)" by (cases m) auto
    from parseQuickConnect_matched [OF False, of uo h po] Some m False
    show ?thesis by (auto split: if_splits)
  qed
qed

lemma parseQuickConnect_Some:
  assumes "parseQuickConnect input = Some r"
  shows "(\<exists>po. quickConnectMatch (sanitize (trim input)) = Some (qc_user r, qc_host r, po)
            \<and> qc_port r = map_option (\<lambda>ds. ofInt (digitsValue ds)) po)
         \<and> isValidHost (qc_host r) \<and> (\<forall>u. qc_user r = Some u \<longrightarrow> isValidUser u)
         \<and> (\<forall>p. qc_port r = Some p \<longrightarrow> isValidPort (PortNum p))"
proof -
  from assms have t: "sanitize (trim input) \<noteq> []"
    by (auto simp: parseQuickConnect_def)
  from assms t obtain m where "quickConnectMatch (sanitize (trim input)) = Some m"
    by (cases "quickConnectMatch (sanitize (trim input))") (auto simp: parseQuickConnect_def)
  then obtain uo h po where m: "quickConnectMatch (sanitize (trim input)) = Some (uo, h, po)"
    by (cases m) auto
  from quickConnectMatch_Some [OF m]
  have d: "\<forall>ds. po = Some ds \<longrightarrow> ds \<noteq> [] \<and> list_all isDigit ds" by simp
  note pm = parseQuickConnect_matched [OF t m]
  from assms pm have ok: "isValidHost h" "\<forall>u. uo = Some u \<longrightarrow> isValidUser u"
      "\<forall>ds. po = Some ds \<longrightarrow> isValidPort (PortStr ds)"
    and r: "r = \<lparr>qc_user = uo, qc_host = h, qc_port = map_option (\<lambda>ds. ofInt (digitsValue ds)) po\<rparr>"
    by (auto split: if_splits)
  have "isValidPort (PortNum p)" if "qc_port r = Some p" for p
  proof -
    from that r obtain ds where ds: "po = Some ds" "p = ofInt (digitsValue ds)" by auto
    with d have "parseInt ds = toNumber (digitsValue ds)" by (simp add: parseInt_def mathInt_digits)
    with ok(3) ds have v: "isValidPort (PortNum (toNumber (digitsValue ds)))"
      by (simp add: isValidPort_PortStr)
    from toNumber_valid [OF v] v ds show ?thesis by simp
  qed
  with m ok r show ?thesis by simp
qed

lemma parseQuickConnect_example1:
  "parseQuickConnect ''admin@example.com:2222''
     = Some \<lparr>qc_user = Some ''admin'', qc_host = ''example.com'', qc_port = Some (ofInt 2222)\<rparr>"
  by code_simp

lemma parseQuickConnect_example2:
  "parseQuickConnect ''example.com''
     = Some \<lparr>qc_user = None, qc_host = ''example.com'', qc_port = None\<rparr>"
  by code_simp

text \<open>
  Claim C8. \<open>parseQuickConnect\<close> returns \<open>null\<close> exactly when the input, trimmed and
  sanitized, is empty, or does not match the pattern, or the host matched is not valid, or
  a user was matched and is not valid, or a port was matched and is not valid. The pattern
  matches exactly the texts made of an optional user (not empty, without \<open>@\<close>) and
  \<open>@\<close>, a host (not empty, without colon) and an optional colon and digits. A result has
  the user and the host that were matched and the number written by the digits, and they
  are valid. \<open>admin@example.com:2222\<close> gives the user \<open>admin\<close>, the host \<open>example.com\<close>
  and the port 2222; \<open>example.com\<close> gives the host alone.
\<close>

theorem parseQuickConnect_spec:
  "(parseQuickConnect input = None \<longleftrightarrow>
      sanitize (trim input) = [] \<or> quickConnectMatch (sanitize (trim input)) = None
      \<or> (\<exists>uo h po. quickConnectMatch (sanitize (trim input)) = Some (uo, h, po)
            \<and> (\<not> isValidHost h \<or> (\<exists>u. uo = Some u \<and> \<not> isValidUser u)
                 \<or> (\<exists>ds. po = Some ds \<and> \<not> isValidPort (PortStr ds)))))
   \<and> (quickConnectMatch t = None \<longleftrightarrow>
        \<not> (\<exists>uo h po. t = (case uo of None \<Rightarrow> [] | Some u \<Rightarrow> u @ ''@'') @ h
                            @ (case po of None \<Rightarrow> [] | Some ds \<Rightarrow> '':'' @ ds)
              \<and> (\<forall>u. uo = Some u \<longrightarrow> u \<noteq> [] \<and> CHR ''@'' \<notin> set u) \<and> h \<noteq> [] \<and> CHR '':'' \<notin> set h
              \<and> (\<forall>ds. po = Some ds \<longrightarrow> ds \<noteq> [] \<and> list_all isDigit ds)))
   \<and> (parseQuickConnect input = Some r \<longrightarrow>
        (\<exists>po. quickConnectMatch (sanitize (trim input)) = Some (qc_user r, qc_host r, po)
            \<and> qc_port r = map_option (\<lambda>ds. ofInt (digitsValue ds)) po)
        \<and> isValidHost (qc_host r) \<and> (\<forall>u. qc_user r = Some u \<longrightarrow> isValidUser u)
        \<and> (\<forall>p. qc_port r = Some p \<longrightarrow> isValidPort (PortNum p)))
   \<and> parseQuickConnect ''admin@example.com:2222''
       = Some \<lparr>qc_user = Some ''admin'', qc_host = ''example.com'', qc_port = Some (ofInt 2222)\<rparr>
   \<and> parseQuickConnect ''example.com''
       = Some \<lparr>qc_user = None, qc_host = ''example.com'', qc_port = None\<rparr>"
proof -
  have s: "parseQuickConnect input = Some r \<longrightarrow>
        (\<exists>po. quickConnectMatch (sanitize (trim input)) = Some (qc_user r, qc_host r, po)
            \<and> qc_port r = map_option (\<lambda>ds. ofInt (digitsValue ds)) po)
        \<and> isValidHost (qc_host r) \<and> (\<forall>u. qc_user r = Some u \<longrightarrow> isValidUser u)
        \<and> (\<forall>p. qc_port r = Some p \<longrightarrow> isValidPort (PortNum p))"
    by (intro impI) (erule parseQuickConnect_Some)
  show ?thesis
    using parseQuickConnect_None [of input] quickConnectMatch_None [of t] s
      parseQuickConnect_example1 parseQuickConnect_example2
    by (intro conjI) assumption+
qed

theorem parseQuickConnect_spec_witness:
  "parseQuickConnect ''root@10.0.0.1:22''
     = Some \<lparr>qc_user = Some ''root'', qc_host = ''10.0.0.1'', qc_port = Some (ofInt 22)\<rparr>
   \<and> isValidHost ''10.0.0.1'' \<and> isValidUser ''root'' \<and> isValidPort (PortNum (ofInt 22))
   \<and> parseQuickConnect ''host:0'' = None"
proof -
  let ?r = "\<lparr>qc_user = Some ''root'', qc_host = ''10.0.0.1'', qc_port = Some (ofInt 22)\<rparr>"
  have p: "parseQuickConnect ''root@10.0.0.1:22'' = Some ?r" by code_simp
  from parseQuickConnect_spec [of "''root@10.0.0.1:22''" "[]" ?r] p
  have "isValidHost (qc_host ?r) \<and> (\<forall>u. qc_user ?r = Some u \<longrightarrow> isValidUser u)
        \<and> (\<forall>p. qc_port ?r = Some p \<longrightarrow> isValidPort (PortNum p))"
    by blast
  then have v: "isValidHost ''10.0.0.1'' \<and> isValidUser ''root'' \<and> isValidPort (PortNum (ofInt 22))"
    by simp
  have s: "sanitize (trim ''host:0'') = ''host:0''" by code_simp
  have m: "quickConnectMatch ''host:0'' = Some (None, ''host'', Some ''0'')" by code_simp
  have n: "\<not> isValidPort (PortStr ''0'')" by code_simp
  from parseQuickConnect_spec [of "''host:0''" "[]" ?r] s m n
  have "parseQuickConnect ''host:0'' = None" by simp
  with p v show ?thesis by simp
qed


section \<open>Identity file paths\<close>

lemma getSubstitution_plain: "CHR ''$'' \<notin> set t \<Longrightarrow> getSubstitution m b a t = t"
  by (induction m b a t rule: getSubstitution.induct) auto

lemma splitOn_nonempty: "splitOn c s \<noteq> []"
  by (induction s) (auto split: list.splits)

lemma splitOn_append: "splitOn c (a @ c # b) = splitOn c a @ splitOn c b"
  by (induction a) (auto split: list.splits simp: splitOn_nonempty)

lemma splitOn_none: "c \<notin> set s \<Longrightarrow> splitOn c s = [s]"
  by (induction s) auto

lemma splitOn_hd_prefix: "prefix (hd (splitOn c s)) s"
  by (induction s) (auto split: list.splits)

lemma splitOn_sublist: "x \<in> set (splitOn c s) \<Longrightarrow> sublist x s"
proof (induction s arbitrary: x)
  case Nil
  then show ?case by simp
next
  case (Cons y ys)
  show ?case
  proof (cases "y = c")
    case True
    with Cons.prems have "x = [] \<or> x \<in> set (splitOn c ys)" by simp
    with Cons.IH show ?thesis by (auto simp: sublist_Cons_right)
  next
    case False
    obtain z zs where z: "splitOn c ys = z # zs" using splitOn_nonempty [of c ys] by (cases "splitOn c ys") auto
    with False Cons.prems have "x = y # z \<or> x \<in> set zs" by simp
    then show ?thesis
    proof
      assume "x = y # z"
      moreover from splitOn_hd_prefix [of c ys] z have "prefix z ys" by simp
      ultimately show ?thesis by (simp add: sublist_Cons_right)
    next
      assume "x \<in> set zs"
      with z Cons.IH [of x] show ?thesis by (simp add: sublist_Cons_right)
    qed
  qed
qed

lemma normSegs_append:
  "normSegs up acc (A @ B) = normSegs up (rev (normSegs up acc A)) B"
  by (induction A arbitrary: acc) (auto split: list.splits)

lemma normSegs_no_dotdot:
  "''..'' \<notin> set B \<Longrightarrow> normSegs up acc B = rev acc @ filter (\<lambda>s. s \<noteq> [] \<and> s \<noteq> ''.'') B"
  by (induction B arbitrary: acc) auto

lemma join_append:
  "X \<noteq> [] \<Longrightarrow> T \<noteq> [] \<Longrightarrow> join sep (X @ T) = join sep X @ sep @ join sep T"
  by (induction sep X rule: join.induct) (auto simp: neq_Nil_conv)

lemma join_snoc_nonempty: "x \<noteq> [] \<Longrightarrow> join sep (X @ [x]) \<noteq> []"
  by (induction sep X rule: join.induct) auto


lemma no_dotdot_prefix: "sublist ''..'' (''~/.ssh/'' @ nm) \<longleftrightarrow> sublist ''..'' nm"
  by (simp add: sublist_Cons_right)

lemma isValidIdentityFile_dotdot: "sublist ''..'' filePath \<Longrightarrow> \<not> isValidIdentityFile e filePath"
  by (simp add: isValidIdentityFile_def Let_def)

lemma isValidIdentityFile_ssh:
  assumes ab: "isAbsolute (homedir e)" and nd: "CHR ''$'' \<notin> set (homedir e)"
    and wl: "list_all isPathChar nm" and dd: "\<not> sublist ''..'' nm"
  shows "isValidIdentityFile e (''~/.ssh/'' @ nm)"
proof -
  let ?home = "homedir e"
  let ?fp = "''~/.ssh/'' @ nm"
  define S where "S = normSegs False [] (splitOn CHR ''/'' ?home)"
  define T where "T = filter (\<lambda>s. s \<noteq> [] \<and> s \<noteq> ''.'') (splitOn CHR ''/'' nm)"
  from ab obtain hr where home: "?home = CHR ''/'' # hr" by (cases ?home) (auto simp: isAbsolute_def)
  have w: "matchesPathWhitelist ?fp"
    using wl by (simp add: matchesPathWhitelist_def isPathChar_def isAlnum_def isLower_def)
  have nd': "\<not> sublist ''..'' ?fp" unfolding no_dotdot_prefix by (rule dd)
  have ex: "expandPath e ?fp = ?home @ ''/.ssh/'' @ nm"
    using nd by (simp add: expandPath_def getSubstitution_plain)
  have nodd: "''..'' \<notin> set (splitOn CHR ''/'' nm @ [[]])"
    using dd splitOn_sublist [of "''..''" "CHR ''/''" nm] by auto
  have segs1: "splitOn CHR ''/'' (?home @ ''/.ssh'') = splitOn CHR ''/'' ?home @ [''.ssh'']"
    using splitOn_append [of "CHR ''/''" ?home "''.ssh''"] by (simp add: splitOn_none)
  have segs2: "splitOn CHR ''/'' ((?home @ ''/.ssh/'' @ nm) @ ''/'')
                 = splitOn CHR ''/'' ?home @ [''.ssh''] @ (splitOn CHR ''/'' nm @ [[]])"
  proof -
    have "splitOn CHR ''/'' (nm @ ''/'') = splitOn CHR ''/'' nm @ [[]]"
      using splitOn_append [of "CHR ''/''" nm "[]"] by simp
    then have "splitOn CHR ''/'' (''.ssh'' @ CHR ''/'' # (nm @ ''/'')) = [''.ssh''] @ (splitOn CHR ''/'' nm @ [[]])"
      by (simp only: splitOn_append) (simp add: splitOn_none)
    moreover have "(?home @ ''/.ssh/'' @ nm) @ ''/'' = ?home @ CHR ''/'' # (''.ssh'' @ CHR ''/'' # (nm @ ''/''))"
      by simp
    ultimately show ?thesis by (simp only: splitOn_append)
  qed
  have n1: "normSegs False [] (splitOn CHR ''/'' ?home @ [''.ssh'']) = S @ [''.ssh'']"
    by (simp add: normSegs_append S_def)
  have n2: "normSegs False [] (splitOn CHR ''/'' ?home @ [''.ssh''] @ (splitOn CHR ''/'' nm @ [[]]))
              = (S @ [''.ssh'']) @ T"
  proof -
    have "normSegs False [] ((splitOn CHR ''/'' ?home @ [''.ssh'']) @ (splitOn CHR ''/'' nm @ [[]]))
            = normSegs False (rev (S @ [''.ssh''])) (splitOn CHR ''/'' nm @ [[]])"
      by (simp only: normSegs_append [of False "[]" "splitOn CHR ''/'' ?home @ [''.ssh'']"] n1)
    also have "\<dots> = rev (rev (S @ [''.ssh''])) @ filter (\<lambda>s. s \<noteq> [] \<and> s \<noteq> ''.'') (splitOn CHR ''/'' nm @ [[]])"
      using nodd by (rule normSegs_no_dotdot)
    also have "\<dots> = (S @ [''.ssh'']) @ T" by (simp add: T_def)
    finally show ?thesis by simp
  qed
  have ne: "join ''/'' (S @ [''.ssh'']) \<noteq> []" by (rule join_snoc_nonempty) simp
  have sshDir: "path_join ?home ''.ssh'' = ''/'' @ join ''/'' (S @ [''.ssh''])"
  proof -
    have j: "join ''/'' (filter (\<lambda>x. x \<noteq> []) [?home, ''.ssh'']) = ?home @ ''/.ssh''"
      using home by simp
    have a: "isAbsolute (?home @ ''/.ssh'')" using home by (simp add: isAbsolute_def)
    have l: "last (?home @ ''/.ssh'') \<noteq> CHR ''/''" by simp
    have z: "?home @ ''/.ssh'' \<noteq> []" by simp
    have "path_normalize (?home @ ''/.ssh'') = ''/'' @ join ''/'' (S @ [''.ssh''])"
      unfolding path_normalize_def Let_def normalizeString_def segs1
      using a l z ne by (simp only: if_False if_True simp_thms append_Nil2 n1)
    with j show ?thesis by (simp add: path_join_def Let_def)
  qed
  have resolved: "path_resolve e (?home @ ''/.ssh/'' @ nm) = ''/'' @ join ''/'' ((S @ [''.ssh'']) @ T)"
  proof -
    have "isAbsolute (?home @ ''/.ssh/'' @ nm)" using home by (simp add: isAbsolute_def)
    moreover have "?home @ ''/.ssh/'' @ nm \<noteq> []" using home by simp
    ultimately show ?thesis
      unfolding path_resolve_def Let_def normalizeString_def
      by (simp only: segs2 n2 if_True if_False simp_thms)
  qed
  have inSsh: "prefix ((''/'' @ join ''/'' (S @ [''.ssh''])) @ ''/'') (''/'' @ join ''/'' ((S @ [''.ssh'']) @ T))
                \<or> ''/'' @ join ''/'' ((S @ [''.ssh'']) @ T) = ''/'' @ join ''/'' (S @ [''.ssh''])"
  proof (cases "T = []")
    case True
    then show ?thesis by simp
  next
    case False
    then have "join ''/'' ((S @ [''.ssh'']) @ T) = join ''/'' (S @ [''.ssh'']) @ ''/'' @ join ''/'' T"
      by (intro join_append) simp_all
    then show ?thesis by simp
  qed
  have fpne: "?fp \<noteq> []" by simp
  show ?thesis
    unfolding isValidIdentityFile_def Let_def ex resolved sshDir
    using w nd' inSsh fpne by (simp only: if_False if_True simp_thms)
qed


text \<open>
  Claim C3 as stated fails: the name \<open>a..b\<close> is made of whitelist characters only, and
  \<open>~/.ssh/a..b\<close> is rejected.
\<close>

theorem isValidIdentityFile_counterexample:
  "list_all isPathChar ''a..b'' \<and> \<not> isValidIdentityFile testEnv (''~/.ssh/'' @ ''a..b'')"
  by code_simp

text \<open>
  Claim C3, amended. \<open>isValidIdentityFile\<close> rejects every path that contains \<open>..\<close>,
  whatever its other characters. On a POSIX system whose home directory is an absolute
  path without \<open>$\<close>, it accepts every path \<open>~/.ssh/<name>\<close> whose name is made of the
  whitelist characters \<open>[A-Za-z0-9._/-]\<close> and does not contain \<open>..\<close>.
\<close>

theorem isValidIdentityFile_amended:
  "(sublist ''..'' filePath \<longrightarrow> \<not> isValidIdentityFile e filePath)
   \<and> (isAbsolute (homedir e) \<and> CHR ''$'' \<notin> set (homedir e)
        \<and> list_all isPathChar nm \<and> \<not> sublist ''..'' nm
      \<longrightarrow> isValidIdentityFile e (''~/.ssh/'' @ nm))"
  using isValidIdentityFile_dotdot [of filePath e] isValidIdentityFile_ssh [of e nm] by blast

theorem isValidIdentityFile_amended_witness:
  "sublist ''..'' ''~/.ssh/../../../etc/shadow''
   \<and> \<not> isValidIdentityFile testEnv ''~/.ssh/../../../etc/shadow''
   \<and> isAbsolute (homedir testEnv) \<and> CHR ''$'' \<notin> set (homedir testEnv)
   \<and> list_all isPathChar ''id_ed25519'' \<and> \<not> sublist ''..'' ''id_ed25519''
   \<and> isValidIdentityFile testEnv (''~/.ssh/'' @ ''id_ed25519'')"
proof -
  have a: "sublist ''..'' ''~/.ssh/../../../etc/shadow''" by code_simp
  have b: "isAbsolute (homedir testEnv) \<and> CHR ''$'' \<notin> set (homedir testEnv)
   \<and> list_all isPathChar ''id_ed25519'' \<and> \<not> sublist ''..'' ''id_ed25519''" by code_simp
  from isValidIdentityFile_amended [of "''~/.ssh/../../../etc/shadow''" testEnv "''id_ed25519''"] a b
  show ?thesis by blast
qed


section \<open>The alias\<close>

lemma alias_chars:
  "list_all (\<lambda>c. isAlnum c \<or> c = CHR ''_'') (generateSSHConfigAlias info)"
proof -
  have c: "list_all (\<lambda>c. isAlnum c \<or> c = CHR ''_'') (cleanName s)" for s
    by (induction s) (simp_all add: cleanName_def)
  have p: "list_all (\<lambda>c. isAlnum c \<or> c = CHR ''_'') ''SSHarbor_''"
    by (simp add: isAlnum_def isLower_def isUpper_def)
  have u: "list_all (\<lambda>c. isAlnum c \<or> c = CHR ''_'') ''_''" by simp
  show ?thesis
    unfolding generateSSHConfigAlias_def Let_def list_all_append using c p u by blast
qed

text \<open>
  Claim C7. \<open>generateSSHConfigAlias\<close> returns \<open>SSHarbor_<fleet>_<vessel>\<close>, where the two
  parts are the fleet name and the vessel name with every character outside
  \<open>[A-Za-z0-9]\<close> replaced by \<open>_\<close>, each on its own: the cleaned name has the length of the
  name and differs from it exactly at the characters that are not alphanumeric. For the
  fleet \<open>AWS-Prod\<close> and the vessel \<open>DB (Master)\<close> the alias is
  \<open>SSHarbor_AWS_Prod_DB__Master_\<close>.
\<close>

theorem generateSSHConfigAlias_spec:
  "generateSSHConfigAlias info
     = ''SSHarbor_'' @ cleanName (fleetName info) @ ''_'' @ cleanName (name info)
   \<and> length (cleanName s) = length s
   \<and> (\<forall>i. i < length s \<longrightarrow> cleanName s ! i = (if isAlnum (s ! i) then s ! i else CHR ''_''))
   \<and> (fleetName info = ''AWS-Prod'' \<and> name info = ''DB (Master)''
        \<longrightarrow> generateSSHConfigAlias info = ''SSHarbor_AWS_Prod_DB__Master_'')"
  by (simp add: generateSSHConfigAlias_def cleanName_def isAlnum_def isLower_def isUpper_def isDigit_def)

theorem generateSSHConfigAlias_spec_witness:
  "generateSSHConfigAlias
     \<lparr>host = ''db.example.com'', user = ''admin'', port = 22, identityFile = None,
      name = ''DB (Master)'', shell = ''/bin/bash'', fleetName = ''AWS-Prod'',
      favorite = False, tags = []\<rparr> = ''SSHarbor_AWS_Prod_DB__Master_''"
proof -
  let ?I = "\<lparr>host = ''db.example.com'', user = ''admin'', port = 22, identityFile = None,
      name = ''DB (Master)'', shell = ''/bin/bash'', fleetName = ''AWS-Prod'',
      favorite = False, tags = []\<rparr>"
  have "fleetName ?I = ''AWS-Prod'' \<and> name ?I = ''DB (Master)''" by simp
  with generateSSHConfigAlias_spec [of ?I "[]"] show ?thesis by blast
qed

section \<open>Validation and the command\<close>

lemma validate_cases:
  "valid (validateConnectionInfo e info) \<longleftrightarrow>
     isValidHost (host info) \<and> isValidUser (user info) \<and> isValidPort (PortNum (ofInt (port info)))
     \<and> (truthy (identityFile info) \<longrightarrow> isValidIdentityFile e (the (identityFile info)))"
  by (auto simp: validateConnectionInfo_def truthy_def split: option.splits)

lemma validate_error:
  "error (validateConnectionInfo e info) =
     (if \<not> isValidHost (host info) then Some (''Invalid host: '' @ host info)
      else if \<not> isValidUser (user info) then Some (''Invalid user: '' @ user info)
      else if \<not> isValidPort (PortNum (ofInt (port info)))
        then Some (''Invalid port: '' @ numToString (port info))
      else if truthy (identityFile info) \<and> \<not> isValidIdentityFile e (the (identityFile info))
        then Some (''Invalid identity file path: '' @ the (identityFile info))
      else None)"
  by (auto simp: validateConnectionInfo_def truthy_def split: option.splits)

lemma validate_error_Some:
  "\<not> valid (validateConnectionInfo e info) \<Longrightarrow> \<exists>m. error (validateConnectionInfo e info) = Some m"
  by (auto simp: validateConnectionInfo_def truthy_def split: option.splits)

lemma testInfo_valid: "valid (validateConnectionInfo testEnv testInfo)"
  by code_simp

text \<open>
  Claim C4. For a connection that passes \<open>validateConnectionInfo\<close>, and whose identity
  file, when one is set, exists after \<open>~\<close> is expanded, \<open>buildSSHCommand\<close> returns the
  tokens \<open>ssh\<close>, then \<open>-i\<close> and the expanded identity path when an identity file is set,
  then \<open>-p\<close> and the port exactly when the port is not 22, then \<open>user@host\<close>, joined by
  single spaces. \<open>buildSSHCommandDisplay\<close> returns the same sequence with the identity
  path as it was given.
\<close>

theorem buildSSHCommand_token_order:
  "(valid (validateConnectionInfo e info)
      \<and> (truthy (identityFile info) \<longrightarrow> existsSync e (expandPath e (the (identityFile info))))
    \<longrightarrow> buildSSHCommand e info =
          Inr (join '' ''
                ([''ssh'']
                 @ (if truthy (identityFile info) then [''-i'', expandPath e (the (identityFile info))] else [])
                 @ (if port info \<noteq> 22 then [''-p'', numToString (port info)] else [])
                 @ [user info @ ''@'' @ host info]), []))
   \<and> buildSSHCommandDisplay info =
        join '' ''
          ([''ssh'']
           @ (if truthy (identityFile info) then [''-i'', the (identityFile info)] else [])
           @ (if port info \<noteq> 22 then [''-p'', numToString (port info)] else [])
           @ [user info @ ''@'' @ host info])"
  by (simp add: buildSSHCommand_def buildSSHCommandDisplay_def Let_def)

theorem buildSSHCommand_token_order_witness:
  "valid (validateConnectionInfo testEnv testInfo)
   \<and> existsSync testEnv (expandPath testEnv (the (identityFile testInfo)))
   \<and> buildSSHCommand testEnv testInfo
       = Inr (''ssh -i /home/testuser/.ssh/id_rsa -p 2222 admin@example.com'', [])
   \<and> buildSSHCommandDisplay testInfo = ''ssh -i ~/.ssh/id_rsa -p 2222 admin@example.com''"
proof -
  have ex: "existsSync testEnv (expandPath testEnv (the (identityFile testInfo)))"
    by (simp add: expandPath_def)
  have ns: "numToString 2222 = ''2222''" by code_simp
  from buildSSHCommand_token_order [of testEnv testInfo] testInfo_valid ex
  show ?thesis by (simp add: truthy_def expandPath_def ns)
qed

text \<open>
  Claim C5. \<open>buildSSHCommand\<close> throws exactly when \<open>validateConnectionInfo\<close> rejects its
  argument, and the error thrown carries the message of the validation result, which
  names the host, the user, the port or the identity file with its value. When the
  validation succeeds a command is returned.
\<close>

theorem buildSSHCommand_throws_iff_invalid:
  "(buildSSHCommand e info = Inl (Error m)
      \<longleftrightarrow> \<not> valid (validateConnectionInfo e info) \<and> error (validateConnectionInfo e info) = Some m)
   \<and> (\<not> valid (validateConnectionInfo e info) \<longrightarrow>
        error (validateConnectionInfo e info) \<in>
          {Some (''Invalid host: '' @ host info), Some (''Invalid user: '' @ user info),
           Some (''Invalid port: '' @ numToString (port info)),
           Some (''Invalid identity file path: '' @ the (identityFile info))})
   \<and> (valid (validateConnectionInfo e info) \<longrightarrow> (\<exists>cmd w. buildSSHCommand e info = Inr (cmd, w)))"
proof (intro conjI impI)
  show "buildSSHCommand e info = Inl (Error m)
      \<longleftrightarrow> \<not> valid (validateConnectionInfo e info) \<and> error (validateConnectionInfo e info) = Some m"
    using validate_error_Some [of e info]
    by (auto simp: buildSSHCommand_def Let_def split: prod.splits option.splits)
next
  assume "\<not> valid (validateConnectionInfo e info)"
  then show "error (validateConnectionInfo e info) \<in>
          {Some (''Invalid host: '' @ host info), Some (''Invalid user: '' @ user info),
           Some (''Invalid port: '' @ numToString (port info)),
           Some (''Invalid identity file path: '' @ the (identityFile info))}"
    unfolding validate_cases validate_error by auto
next
  assume "valid (validateConnectionInfo e info)"
  then show "\<exists>cmd w. buildSSHCommand e info = Inr (cmd, w)"
    by (simp add: buildSSHCommand_def Let_def split: prod.splits)
qed

theorem buildSSHCommand_throws_iff_invalid_witness:
  "\<not> valid (validateConnectionInfo testEnv (testInfo\<lparr>host := []\<rparr>))
   \<and> buildSSHCommand testEnv (testInfo\<lparr>host := []\<rparr>) = Inl (Error ''Invalid host: '')
   \<and> valid (validateConnectionInfo testEnv testInfo)
   \<and> (\<exists>cmd w. buildSSHCommand testEnv testInfo = Inr (cmd, w))"
proof -
  have inv: "\<not> valid (validateConnectionInfo testEnv (testInfo\<lparr>host := []\<rparr>))"
    by (simp add: validate_cases isValidHost_def)
  have err: "error (validateConnectionInfo testEnv (testInfo\<lparr>host := []\<rparr>)) = Some ''Invalid host: ''"
    by (simp add: validate_error isValidHost_def)
  from buildSSHCommand_throws_iff_invalid [of testEnv "testInfo\<lparr>host := []\<rparr>" "''Invalid host: ''"]
    inv err
  have "buildSSHCommand testEnv (testInfo\<lparr>host := []\<rparr>) = Inl (Error ''Invalid host: '')"
    by blast
  moreover from buildSSHCommand_throws_iff_invalid [of testEnv testInfo "[]"] testInfo_valid
  have "\<exists>cmd w. buildSSHCommand testEnv testInfo = Inr (cmd, w)" by blast
  ultimately show ?thesis using inv testInfo_valid by blast
qed

text \<open>
  Claim C9. For a connection that passes \<open>validateConnectionInfo\<close> and has an identity
  file set whose expanded path does not exist, \<open>buildSSHCommand\<close> does not throw: it
  returns the command it returns for the same connection with no identity file, and
  writes one warning that names the path.
\<close>

theorem buildSSHCommand_missing_identity:
  "valid (validateConnectionInfo e info) \<and> truthy (identityFile info)
     \<and> \<not> existsSync e (expandPath e (the (identityFile info)))
   \<longrightarrow> (\<exists>cmd. buildSSHCommand e info =
               Inr (cmd, [''SSHarbor: Identity file not found: '' @ expandPath e (the (identityFile info))])
             \<and> buildSSHCommand e (info\<lparr>identityFile := None\<rparr>) = Inr (cmd, []))"
proof (intro impI, elim conjE)
  assume v: "valid (validateConnectionInfo e info)" and t: "truthy (identityFile info)"
    and n: "\<not> existsSync e (expandPath e (the (identityFile info)))"
  from v have v': "valid (validateConnectionInfo e (info\<lparr>identityFile := None\<rparr>))"
    by (simp add: validate_cases truthy_def)
  show "\<exists>cmd. buildSSHCommand e info =
               Inr (cmd, [''SSHarbor: Identity file not found: '' @ expandPath e (the (identityFile info))])
             \<and> buildSSHCommand e (info\<lparr>identityFile := None\<rparr>) = Inr (cmd, [])"
    using v v' t n by (simp add: buildSSHCommand_def Let_def truthy_def)
qed

theorem buildSSHCommand_missing_identity_witness:
  "valid (validateConnectionInfo testEnv (testInfo\<lparr>identityFile := Some ''~/.ssh/my_key''\<rparr>))
   \<and> \<not> existsSync testEnv (expandPath testEnv ''~/.ssh/my_key'')
   \<and> (\<exists>cmd. buildSSHCommand testEnv (testInfo\<lparr>identityFile := Some ''~/.ssh/my_key''\<rparr>)
               = Inr (cmd, [''SSHarbor: Identity file not found: /home/testuser/.ssh/my_key''])
            \<and> buildSSHCommand testEnv (testInfo\<lparr>identityFile := None\<rparr>) = Inr (cmd, []))"
proof -
  let ?I = "testInfo\<lparr>identityFile := Some ''~/.ssh/my_key''\<rparr>"
  have v: "valid (validateConnectionInfo testEnv ?I)" by code_simp
  have n: "\<not> existsSync testEnv (expandPath testEnv ''~/.ssh/my_key'')"
    by (simp add: expandPath_def)
  from buildSSHCommand_missing_identity [of testEnv ?I] v n
  show ?thesis by (simp add: truthy_def expandPath_def)
qed

section \<open>Resolution of the defaults\<close>

text \<open>
  Claim C6 as stated fails: with nothing set at the three levels and empty settings, the
  scan finds no value, and the connection has the empty user and the port 0.
\<close>

theorem connectionInfo_counterexample:
  "firstNonEmpty [v_user bareVessel, fleetDefault bareFleet d_user, d_user noDefaults,
                  Some (defaultUser emptySettings)] = None
   \<and> user (connectionInfo bareVessel bareFleet noDefaults emptySettings) = []
   \<and> firstNonZero [v_port bareVessel, fleetDefault bareFleet d_port, d_port noDefaults,
                   Some (defaultPort emptySettings)] = None
   \<and> port (connectionInfo bareVessel bareFleet noDefaults emptySettings) = 0"
  by (simp add: connectionInfo_def fleetDefault_def strOr_def numOr_def truthy_def truthyNum_def)

lemma strOr_chain:
  "the (strOr (strOr (strOr a b) c) (Some d))
     = (case firstNonEmpty [a, b, c] of Some x \<Rightarrow> x | None \<Rightarrow> d)"
  by (cases a; cases b; cases c) (simp_all add: strOr_def truthy_def)

lemma numOr_chain:
  "the (numOr (numOr (numOr a b) c) (Some d))
     = (case firstNonZero [a, b, c] of Some x \<Rightarrow> x | None \<Rightarrow> d)"
  by (cases a; cases b; cases c) (simp_all add: numOr_def truthyNum_def)

lemma strOr_chain_opt:
  "(case firstNonEmpty [a, b, c] of
      Some x \<Rightarrow> strOr (strOr a b) c = Some x
    | None \<Rightarrow> \<not> truthy (strOr (strOr a b) c))"
  by (cases a; cases b; cases c) (simp_all add: strOr_def truthy_def)

lemma firstNonEmpty_fallback:
  "d \<noteq> [] \<Longrightarrow> firstNonEmpty [a, b, c, Some d]
     = Some (case firstNonEmpty [a, b, c] of Some x \<Rightarrow> x | None \<Rightarrow> d)"
  by (cases a; cases b; cases c) (simp_all add: truthy_def)

lemma firstNonZero_fallback:
  "d \<noteq> 0 \<Longrightarrow> firstNonZero [a, b, c, Some d]
     = Some (case firstNonZero [a, b, c] of Some x \<Rightarrow> x | None \<Rightarrow> d)"
  by (cases a; cases b; cases c) (simp_all add: truthyNum_def)

lemma connectionInfo_fields:
  "user (connectionInfo v f g s)
     = the (strOr (strOr (strOr (v_user v) (fleetDefault f d_user)) (d_user g)) (Some (defaultUser s)))"
  "port (connectionInfo v f g s)
     = the (numOr (numOr (numOr (v_port v) (fleetDefault f d_port)) (d_port g)) (Some (defaultPort s)))"
  "shell (connectionInfo v f g s)
     = the (strOr (strOr (strOr (v_shell v) (fleetDefault f d_shell)) (d_shell g)) (Some (defaultShell s)))"
  "identityFile (connectionInfo v f g s)
     = strOr (strOr (v_identityFile v) (fleetDefault f d_identityFile)) (d_identityFile g)"
  by (simp_all add: connectionInfo_def Let_def)

text \<open>
  Claim C6, amended. \<open>user\<close>, \<open>port\<close> and \<open>shell\<close> of the resolved connection are the
  first present and non-empty (non-zero) value among the vessel, the fleet defaults and
  the global defaults, and the extension setting when there is none, whatever the setting
  is; \<open>identityFile\<close> is the first such value among the three levels, and absent or
  empty when there is none. When a setting is not empty (not 0), the field is the first
  present and non-empty value of the chain of four.
\<close>

theorem connectionInfo_resolution:
  "user (connectionInfo v f g s)
     = (case firstNonEmpty [v_user v, fleetDefault f d_user, d_user g] of
          Some x \<Rightarrow> x | None \<Rightarrow> defaultUser s)
   \<and> port (connectionInfo v f g s)
     = (case firstNonZero [v_port v, fleetDefault f d_port, d_port g] of
          Some x \<Rightarrow> x | None \<Rightarrow> defaultPort s)
   \<and> shell (connectionInfo v f g s)
     = (case firstNonEmpty [v_shell v, fleetDefault f d_shell, d_shell g] of
          Some x \<Rightarrow> x | None \<Rightarrow> defaultShell s)
   \<and> (case firstNonEmpty [v_identityFile v, fleetDefault f d_identityFile, d_identityFile g] of
          Some x \<Rightarrow> identityFile (connectionInfo v f g s) = Some x
        | None \<Rightarrow> \<not> truthy (identityFile (connectionInfo v f g s)))
   \<and> (defaultUser s \<noteq> [] \<longrightarrow>
        firstNonEmpty [v_user v, fleetDefault f d_user, d_user g, Some (defaultUser s)]
          = Some (user (connectionInfo v f g s)))
   \<and> (defaultPort s \<noteq> 0 \<longrightarrow>
        firstNonZero [v_port v, fleetDefault f d_port, d_port g, Some (defaultPort s)]
          = Some (port (connectionInfo v f g s)))
   \<and> (defaultShell s \<noteq> [] \<longrightarrow>
        firstNonEmpty [v_shell v, fleetDefault f d_shell, d_shell g, Some (defaultShell s)]
          = Some (shell (connectionInfo v f g s)))"
  unfolding connectionInfo_fields strOr_chain numOr_chain
  using strOr_chain_opt [of "v_identityFile v" "fleetDefault f d_identityFile" "d_identityFile g"]
  by (intro conjI impI refl firstNonEmpty_fallback firstNonZero_fallback)

theorem connectionInfo_resolution_witness:
  "defaultUser rootSettings \<noteq> [] \<and> defaultPort rootSettings \<noteq> 0 \<and> defaultShell rootSettings \<noteq> []
   \<and> user (connectionInfo (bareVessel\<lparr>v_user := Some []\<rparr>)
             (bareFleet\<lparr>f_defaults := Some (noDefaults\<lparr>d_user := Some ''deploy''\<rparr>)\<rparr>)
             (noDefaults\<lparr>d_user := Some ''ops'', d_port := Some 0\<rparr>) rootSettings) = ''deploy''
   \<and> port (connectionInfo (bareVessel\<lparr>v_user := Some []\<rparr>)
             (bareFleet\<lparr>f_defaults := Some (noDefaults\<lparr>d_user := Some ''deploy''\<rparr>)\<rparr>)
             (noDefaults\<lparr>d_user := Some ''ops'', d_port := Some 0\<rparr>) rootSettings) = 22"
  using connectionInfo_resolution [of "bareVessel\<lparr>v_user := Some []\<rparr>"
      "bareFleet\<lparr>f_defaults := Some (noDefaults\<lparr>d_user := Some ''deploy''\<rparr>)\<rparr>"
      "noDefaults\<lparr>d_user := Some ''ops'', d_port := Some 0\<rparr>" rootSettings]
  by (simp add: fleetDefault_def truthy_def truthyNum_def)


section \<open>Writing the entry twice\<close>

lemma lineMatches_sublist: "lineMatches pat b s \<Longrightarrow> sublist pat s"
proof (induction s arbitrary: b)
  case Nil
  then show ?case by simp
next
  case (Cons c s)
  then show ?case by (auto simp: sublist_Cons_right)
qed

lemma lineMatches_found:
  "pat \<noteq> [] \<Longrightarrow> lineMatches pat b (a @ NL # pat @ NL # r)"
proof (induction a arbitrary: b)
  case Nil
  then obtain c p where p: "pat = c # p" by (cases pat) auto
  have "lineMatches pat True (pat @ NL # r)"
    unfolding p by (simp add: atLineEnd_def isLineTerminator_def)
  then show ?case by (simp add: isLineTerminator_def)
next
  case (Cons x a)
  then show ?case by simp
qed

lemma matchRemove_None:
  "\<not> prefix (''Host '' @ al @ [NL]) s \<Longrightarrow> \<not> prefix (''Host '' @ al @ [NL]) (tl s)
     \<Longrightarrow> matchRemove al s = None"
  by (simp add: matchRemove_def Let_def)

lemma removeMatches_Nil: "removeMatches al [] = []"
  by (simp add: removeMatches.simps [of al "[]"] matchRemove_def)

lemma removeMatches_skip:
  "(\<forall>k < length a. matchRemove al (drop k (a @ b)) = None)
     \<Longrightarrow> removeMatches al (a @ b) = a @ removeMatches al b"
proof (induction a)
  case Nil
  then show ?case by simp
next
  case (Cons c a)
  from Cons.prems have 0: "matchRemove al ((c # a) @ b) = None" by (metis drop0 length_greater_0_conv list.discI)
  have "\<forall>k < length a. matchRemove al (drop k (a @ b)) = None"
  proof (intro allI impI)
    fix k assume "k < length a"
    then have "Suc k < length (c # a)" by simp
    with Cons.prems have "matchRemove al (drop (Suc k) ((c # a) @ b)) = None" by blast
    then show "matchRemove al (drop k (a @ b)) = None" by simp
  qed
  with Cons.IH have "removeMatches al (a @ b) = a @ removeMatches al b" by blast
  with 0 show ?case by (simp add: removeMatches.simps [of al "c # a @ b"])
qed

lemma prefix_drop_sublist: "prefix p (drop k z) \<Longrightarrow> sublist p z"
proof -
  assume "prefix p (drop k z)"
  then obtain r where "drop k z = p @ r" by (auto simp: prefix_def)
  then have "z = take k z @ p @ r" by (metis append_take_drop_id)
  then show ?thesis unfolding sublist_def by blast
qed

lemma removeMatches_clean:
  assumes "\<not> sublist (''Host '' @ al @ [NL]) z"
  shows "removeMatches al z = z"
proof -
  have "matchRemove al (drop k (z @ [])) = None" for k
  proof (rule matchRemove_None)
    show "\<not> prefix (''Host '' @ al @ [NL]) (drop k (z @ []))"
      using assms prefix_drop_sublist [of _ k z] by auto
    have "tl (drop k (z @ [])) = drop (Suc k) z" by (simp add: drop_Suc drop_tl)
    then show "\<not> prefix (''Host '' @ al @ [NL]) (tl (drop k (z @ [])))"
      using assms prefix_drop_sublist [of _ "Suc k" z] by auto
  qed
  then have "removeMatches al (z @ []) = z @ removeMatches al []" by (intro removeMatches_skip) blast
  then show ?thesis by (simp add: removeMatches_Nil)
qed


lemma takeWhile_stop: "\<not> P x \<Longrightarrow> takeWhile P (a @ x # r) = takeWhile P a"
  by (induction a) auto

lemma prefix_line_sublist:
  assumes nl: "NL \<notin> set pat" and p: "prefix (pat @ [NL]) (a @ NL # r)"
  shows "sublist pat a"
proof -
  from p have "prefix (pat @ [NL]) a \<or> (\<exists>us. pat @ [NL] = a @ us \<and> prefix us (NL # r))"
    by (simp only: prefix_append)
  then show ?thesis
  proof
    assume "prefix (pat @ [NL]) a"
    then have "prefix pat a" by (rule append_prefixD)
    then show ?thesis by (rule prefix_imp_sublist)
  next
    assume "\<exists>us. pat @ [NL] = a @ us \<and> prefix us (NL # r)"
    then obtain us where e: "pat @ [NL] = a @ us" and u: "prefix us (NL # r)" by blast
    have "takeWhile (\<lambda>c. c \<noteq> NL) (pat @ [NL]) = pat" using nl by (rule takeWhile_until)
    moreover have "prefix (takeWhile (\<lambda>c. c \<noteq> NL) (a @ us)) a"
    proof (cases us)
      case Nil
      then show ?thesis by (simp add: takeWhile_is_prefix)
    next
      case (Cons x us')
      with u have "x = NL" by simp
      with Cons have "takeWhile (\<lambda>c. c \<noteq> NL) (a @ us) = takeWhile (\<lambda>c. c \<noteq> NL) a"
        by (simp add: takeWhile_stop)
      then show ?thesis by (simp add: takeWhile_is_prefix)
    qed
    ultimately have "prefix pat a" using e by simp
    then show ?thesis by (rule prefix_imp_sublist)
  qed
qed

lemma no_match_before:
  assumes nl: "NL \<notin> set al" and ns: "\<not> sublist (''Host '' @ al) A" and k: "k < length A"
  shows "matchRemove al (drop k (A @ NL # r)) = None"
proof (rule matchRemove_None)
  have nl': "NL \<notin> set (''Host '' @ al)" using nl by simp
  have d: "drop k (A @ NL # r) = drop k A @ NL # r" using k by simp
  have sub: "sublist (''Host '' @ al) (drop j A) \<Longrightarrow> sublist (''Host '' @ al) A" for j
    using sublist_order.order_trans [of "''Host '' @ al" "drop j A" A] by simp
  show "\<not> prefix (''Host '' @ al @ [NL]) (drop k (A @ NL # r))"
  proof
    assume "prefix (''Host '' @ al @ [NL]) (drop k (A @ NL # r))"
    then have "prefix ((''Host '' @ al) @ [NL]) (drop k A @ NL # r)" using d by simp
    from prefix_line_sublist [OF nl' this] sub ns show False by blast
  qed
  from k have "drop k A \<noteq> []" by simp
  then have t: "tl (drop k (A @ NL # r)) = drop (Suc k) A @ NL # r"
    unfolding d by (simp add: drop_Suc drop_tl)
  show "\<not> prefix (''Host '' @ al @ [NL]) (tl (drop k (A @ NL # r)))"
  proof
    assume "prefix (''Host '' @ al @ [NL]) (tl (drop k (A @ NL # r)))"
    then have "prefix ((''Host '' @ al) @ [NL]) (drop (Suc k) A @ NL # r)" using t by simp
    from prefix_line_sublist [OF nl' this] sub ns show False by blast
  qed
qed

lemma bodyLine_line:
  "c \<noteq> NL \<Longrightarrow> NL \<notin> set cs \<Longrightarrow> bodyLine (CHR '' '' # CHR '' '' # c # cs @ NL # rest) = Some rest"
  by (simp add: bodyLine_def dropWhile_until)

lemma dropBody_lines:
  assumes "\<forall>l \<in> set ls. \<exists>c cs. l = CHR '' '' # CHR '' '' # c # cs \<and> c \<noteq> NL \<and> NL \<notin> set cs"
  shows "dropBody (concat (map (\<lambda>l. l @ [NL]) ls) @ post) = dropBody post"
  using assms
proof (induction ls)
  case Nil
  then show ?case by simp
next
  case (Cons l ls)
  then obtain c cs where l: "l = CHR '' '' # CHR '' '' # c # cs" "c \<noteq> NL" "NL \<notin> set cs" by auto
  let ?rest = "concat (map (\<lambda>l. l @ [NL]) ls) @ post"
  have "bodyLine (CHR '' '' # CHR '' '' # c # cs @ NL # ?rest) = Some ?rest"
    using l(2,3) by (rule bodyLine_line)
  then have "dropBody (CHR '' '' # CHR '' '' # c # cs @ NL # ?rest) = dropBody ?rest"
    by (simp add: dropBody.simps [of "CHR '' '' # CHR '' '' # c # cs @ NL # ?rest"])
  with Cons l(1) show ?case by simp
qed

lemma dropBody_stop: "bodyLine post = None \<Longrightarrow> dropBody post = post"
  by (simp add: dropBody.simps [of post])

lemma join_lines: "join [NL] (ls @ [[]]) = concat (map (\<lambda>l. l @ [NL]) ls)"
proof (induction ls)
  case Nil
  then show ?case by simp
next
  case (Cons l ls)
  then show ?case by (cases ls) simp_all
qed


lemma findFirst_Some: "findFirst p x = Some (a, b) \<Longrightarrow> x = a @ p @ b"
proof (induction x arbitrary: a)
  case Nil
  then show ?case by (simp split: if_splits)
next
  case (Cons c s)
  show ?case
  proof (cases "prefix p (c # s)")
    case True
    with Cons.prems have "a = []" "b = drop (length p) (c # s)" by simp_all
    moreover from True have "c # s = p @ drop (length p) (c # s)"
      by (metis append_eq_conv_conj prefixE)
    ultimately show ?thesis by simp
  next
    case False
    with Cons.prems obtain a' where "findFirst p s = Some (a', b)" "a = c # a'" by auto
    with Cons.IH [of a'] show ?thesis by simp
  qed
qed

lemma findFirst_None: "findFirst p x = None \<Longrightarrow> \<not> sublist p x"
proof (induction x)
  case Nil
  then show ?case by (simp split: if_splits)
next
  case (Cons c s)
  then show ?case by (auto simp: sublist_Cons_right split: if_splits)
qed

lemma findFirst_at:
  "(\<forall>k < length a. \<not> prefix p (drop k (a @ p @ b))) \<Longrightarrow> findFirst p (a @ p @ b) = Some (a, b)"
proof (induction a)
  case Nil
  have "findFirst p (p @ b) = Some ([], b)"
  proof (cases "p @ b")
    case Nil
    then show ?thesis by simp
  next
    case (Cons y ys)
    have "prefix p (p @ b)" by simp
    moreover have "drop (length p) (p @ b) = b" by simp
    ultimately show ?thesis unfolding Cons by simp
  qed
  then show ?case by simp
next
  case (Cons c a)
  from Cons.prems have 0: "\<not> prefix p ((c # a) @ p @ b)" by (metis drop0 length_greater_0_conv list.discI)
  have "\<forall>k < length a. \<not> prefix p (drop k (a @ p @ b))"
  proof (intro allI impI)
    fix k assume "k < length a"
    then have "Suc k < length (c # a)" by simp
    with Cons.prems have "\<not> prefix p (drop (Suc k) ((c # a) @ p @ b))" by blast
    then show "\<not> prefix p (drop k (a @ p @ b))" by simp
  qed
  with Cons.IH have "findFirst p (a @ p @ b) = Some (a, b)" by blast
  with 0 show ?case by simp
qed

lemma prefix_before_NL:
  assumes "NL \<notin> set p" and "prefix p (a @ NL # r)"
  shows "prefix p a"
proof -
  from assms(2) have "prefix p a \<or> (\<exists>us. p = a @ us \<and> prefix us (NL # r))"
    by (simp only: prefix_append)
  then show ?thesis
  proof
    assume "\<exists>us. p = a @ us \<and> prefix us (NL # r)"
    then obtain us where e: "p = a @ us" and u: "prefix us (NL # r)" by blast
    show ?thesis
    proof (cases us)
      case Nil
      with e show ?thesis by simp
    next
      case (Cons y us')
      with u have "y = NL" by simp
      with Cons e assms(1) show ?thesis by simp
    qed
  qed
qed

lemma sublist_across_NL:
  assumes nl: "NL \<notin> set p" and s: "sublist p (a @ NL # b)"
  shows "sublist p a \<or> sublist p b"
proof -
  from s obtain k where "prefix p (drop k (a @ NL # b))"
    unfolding sublist_def prefix_def by (metis append_eq_conv_conj)
  then have k: "prefix p (drop k a @ drop (k - length a) (NL # b))" by simp
  show ?thesis
  proof (cases "k \<le> length a")
    case True
    with k have "prefix p (drop k a @ NL # b)" by simp
    with nl have "prefix p (drop k a)" by (rule prefix_before_NL)
    then show ?thesis using prefix_drop_sublist by blast
  next
    case False
    then obtain j where j: "k - length a = Suc j" by (cases "k - length a") auto
    from False k j have "prefix p (drop j b)" by simp
    then show ?thesis using prefix_drop_sublist by blast
  qed
qed

lemma trimEnd_prefix: "prefix (trimEnd x) x"
proof -
  have "suffix (dropWhile isWhiteSpace (rev x)) (rev x)" by (rule suffix_dropWhile)
  then have "prefix (rev (dropWhile isWhiteSpace (rev x))) (rev (rev x))"
    by (simp only: suffix_to_prefix rev_rev_ident)
  then show ?thesis by (simp add: trimEnd_def)
qed

lemma stripZeros_set: "set (stripZeros s) \<subseteq> set s"
proof -
  have "set (dropWhile (\<lambda>c. c = CHR ''0'') (rev s)) \<subseteq> set (rev s)"
    by (auto dest: set_dropWhileD)
  then show ?thesis by (simp add: stripZeros_def)
qed

lemma formatDigits_chars: "list_all (\<lambda>c. isDigit c \<or> c \<in> set ''.e+'') (formatDigits c)"
proof -
  define ds where "ds = decimalDigits c"
  define m where "m = (case stripZeros ds of [] \<Rightarrow> [] | [d] \<Rightarrow> [d] | d # fs \<Rightarrow> d # CHR ''.'' # fs)"
  have f: "formatDigits c = (if length ds \<le> 21 then ds else m @ ''e+'' @ decimalDigits (int (length ds - 1)))"
    unfolding ds_def m_def formatDigits_def Let_def by (rule refl)
  have d: "\<forall>x \<in> set ds. isDigit x"
    using decimalDigits_digits [of c] by (simp add: ds_def list_all_iff)
  with stripZeros_set [of ds] have z: "\<forall>x \<in> set (stripZeros ds). isDigit x" by blast
  have "set m \<subseteq> set (stripZeros ds) \<union> {CHR ''.''}"
  proof (cases "stripZeros ds")
    case Nil
    then show ?thesis by (simp add: m_def)
  next
    case (Cons a fs)
    then show ?thesis by (cases fs) (auto simp: m_def)
  qed
  with z have mm: "\<forall>x \<in> set m. isDigit x \<or> x = CHR ''.''" by blast
  have e: "\<forall>x \<in> set (decimalDigits (int (length ds - 1))). isDigit x"
    using decimalDigits_digits [of "int (length ds - 1)"] by (simp add: list_all_iff)
  from d mm e show ?thesis unfolding f list_all_iff by auto
qed

lemma numToString_chars:
  "list_all (\<lambda>c. isDigit c \<or> c \<in> set ''-.e+Infinity'') (numToString i)"
proof -
  define P where "P = (\<lambda>c. isDigit c \<or> c \<in> set ''-.e+Infinity'')"
  define body where "body = (case toDouble \<bar>i\<bar> of None \<Rightarrow> ''Infinity''
      | Some x \<Rightarrow> if x < 2 ^ 53 then decimalDigits x else formatDigits (shortest x))"
  have n: "numToString i = (if i < 0 then ''-'' else []) @ body"
    unfolding body_def numToString_def by (rule refl)
  have dg: "list_all P (decimalDigits x)" for x
    using decimalDigits_digits [of x] by (simp add: P_def list_all_iff)
  have fd: "list_all P (formatDigits x)" for x
    using formatDigits_chars [of x] unfolding P_def list_all_iff by auto
  have sg: "list_all P (if i < 0 then ''-'' else [])" by (simp add: P_def)
  have inf: "list_all P ''Infinity''" by (simp add: P_def)
  have "list_all P body"
  proof (cases "toDouble \<bar>i\<bar>")
    case None
    with inf show ?thesis by (simp add: body_def)
  next
    case (Some x)
    with dg [of x] fd [of "shortest x"] show ?thesis by (simp add: body_def)
  qed
  with sg have "list_all P (numToString i)" unfolding n by (simp only: list_all_append simp_thms)
  then show ?thesis unfolding P_def .
qed

lemma numToString_plain: "NL \<notin> set (numToString i) \<and> CHR ''$'' \<notin> set (numToString i)"
proof -
  have "\<not> isDigit NL" "\<not> isDigit CHR ''$''" by (simp_all add: isDigit_def)
  with numToString_chars [of i] show ?thesis by (auto simp: list_all_iff)
qed

lemma plain_chars:
  "isAlnum c \<or> c = CHR ''_'' \<or> c = CHR ''-'' \<Longrightarrow> c \<noteq> NL \<and> c \<noteq> CHR ''$''"
  by (auto simp: isAlnum_def isLower_def isUpper_def isDigit_def)


lemma newEntry_split:
  assumes h: "NL \<notin> set (host info)" and u: "NL \<notin> set (user info)"
    and i: "\<forall>f. identityFile info = Some f \<longrightarrow> NL \<notin> set f"
  shows "\<exists>ls. newEntry al info = (''Host '' @ al) @ NL # concat (map (\<lambda>l. l @ [NL]) ls)
           \<and> (\<forall>l \<in> set ls. \<exists>c cs. l = CHR '' '' # CHR '' '' # c # cs \<and> c \<noteq> NL \<and> NL \<notin> set cs)"
proof -
  define pl where "pl = (if port info \<noteq> 22 then [''  Port '' @ numToString (port info)] else [])"
  define il where "il = (if truthy (identityFile info) then [''  IdentityFile '' @ the (identityFile info)] else [])"
  define ls where "ls = [''  HostName '' @ host info, ''  User '' @ user info] @ pl @ il"
  have "newEntry al info = join [NL] (((''Host '' @ al) # ls) @ [[]])"
    by (simp add: newEntry_def Let_def ls_def pl_def il_def)
  then have e: "newEntry al info = (''Host '' @ al) @ NL # concat (map (\<lambda>l. l @ [NL]) ls)"
    by (simp only: join_lines) simp
  have n: "NL \<notin> set (numToString (port info))"
    using numToString_plain [of "port info"] by simp
  have "\<exists>c cs. l = CHR '' '' # CHR '' '' # c # cs \<and> c \<noteq> NL \<and> NL \<notin> set cs" if "l \<in> set ls" for l
  proof -
    from that consider "l = ''  HostName '' @ host info" | "l = ''  User '' @ user info"
      | "l = ''  Port '' @ numToString (port info)"
      | "truthy (identityFile info)" "l = ''  IdentityFile '' @ the (identityFile info)"
      by (auto simp: ls_def pl_def il_def split: if_splits)
    then show ?thesis
    proof cases
      case 1
      with h show ?thesis by simp
    next
      case 2
      with u show ?thesis by simp
    next
      case 3
      with n show ?thesis by simp
    next
      case 4
      from 4(1) obtain f where "identityFile info = Some f" by (cases "identityFile info") (auto simp: truthy_def)
      with i 4(2) show ?thesis by simp
    qed
  qed
  with e show ?thesis by blast
qed

lemma newEntry_nodollar:
  assumes a: "CHR ''$'' \<notin> set al" and h: "CHR ''$'' \<notin> set (host info)" and u: "CHR ''$'' \<notin> set (user info)"
    and i: "\<forall>f. identityFile info = Some f \<longrightarrow> CHR ''$'' \<notin> set f"
  shows "CHR ''$'' \<notin> set (marker @ NL # newEntry al info)"
proof -
  define pl where "pl = (if port info \<noteq> 22 then [''  Port '' @ numToString (port info)] else [])"
  define il where "il = (if truthy (identityFile info) then [''  IdentityFile '' @ the (identityFile info)] else [])"
  define ls where "ls = [''  HostName '' @ host info, ''  User '' @ user info] @ pl @ il"
  have "newEntry al info = join [NL] (((''Host '' @ al) # ls) @ [[]])"
    by (simp add: newEntry_def Let_def ls_def pl_def il_def)
  then have e: "newEntry al info = (''Host '' @ al) @ NL # concat (map (\<lambda>l. l @ [NL]) ls)"
    by (simp only: join_lines) simp
  have n: "CHR ''$'' \<notin> set (numToString (port info))"
    using numToString_plain [of "port info"] by simp
  have pl: "\<forall>l \<in> set pl. CHR ''$'' \<notin> set l" using n by (simp add: pl_def)
  have il: "\<forall>l \<in> set il. CHR ''$'' \<notin> set l"
  proof (cases "identityFile info")
    case None
    then show ?thesis by (simp add: il_def truthy_def)
  next
    case (Some f)
    with i show ?thesis by (simp add: il_def)
  qed
  have "\<forall>l \<in> set ls. CHR ''$'' \<notin> set l" using h u pl il by (auto simp: ls_def)
  then have "CHR ''$'' \<notin> set (concat (map (\<lambda>l. l @ [NL]) ls))" by auto
  moreover have "CHR ''$'' \<notin> set marker" by (simp add: marker_def)
  ultimately show ?thesis using a by (simp add: e)
qed


lemma removeMatches_entry:
  assumes nl: "NL \<notin> set al"
    and A: "\<not> sublist (''Host '' @ al) A"
    and ls: "\<forall>l \<in> set ls. \<exists>c cs. l = CHR '' '' # CHR '' '' # c # cs \<and> c \<noteq> NL \<and> NL \<notin> set cs"
    and post: "bodyLine post = None" "\<not> sublist (''Host '' @ al) post"
  shows "removeMatches al (A @ NL # ((''Host '' @ al) @ NL # concat (map (\<lambda>l. l @ [NL]) ls)) @ post) = A @ post"
proof -
  let ?body = "concat (map (\<lambda>l. l @ [NL]) ls)"
  let ?rest = "NL # ((''Host '' @ al) @ NL # ?body) @ post"
  have "\<forall>k < length A. matchRemove al (drop k (A @ ?rest)) = None"
    using no_match_before [OF nl A] by blast
  then have 1: "removeMatches al (A @ ?rest) = A @ removeMatches al ?rest" by (rule removeMatches_skip)
  have "matchRemove al ?rest = Some (dropBody (?body @ post))"
    by (simp add: matchRemove_def Let_def)
  also have "dropBody (?body @ post) = post"
    using dropBody_lines [OF ls, of post] dropBody_stop [OF post(1)] by simp
  finally have mr: "matchRemove al ?rest = Some post" .
  have "removeMatches al ?rest =
      (case matchRemove al ?rest of Some r \<Rightarrow> removeMatches al r
       | None \<Rightarrow> (case ?rest of [] \<Rightarrow> [] | c # t \<Rightarrow> c # removeMatches al t))"
    by (rule removeMatches.simps)
  then have "removeMatches al ?rest = removeMatches al post"
    by (simp only: mr option.case)
  moreover have "\<not> sublist (''Host '' @ al @ [NL]) post"
  proof
    assume "sublist (''Host '' @ al @ [NL]) post"
    moreover have "sublist (''Host '' @ al) (''Host '' @ al @ [NL])"
      using sublist_append_rightI [of "''Host '' @ al" "[NL]"] by simp
    ultimately have "sublist (''Host '' @ al) post" by (rule sublist_order.order_trans [rotated])
    with post(2) show False by blast
  qed
  then have "removeMatches al post = post" by (rule removeMatches_clean)
  ultimately show ?thesis using 1 by simp
qed

text \<open>
  On a config that does not contain \<open>Host <alias>\<close> anywhere, and in which the text
  right after the first marker, when there is one, does not begin with two spaces, a
  character and the rest of a line, writing the entry a second time changes nothing,
  provided the host, the user and the identity file contain neither a newline nor \<open>$\<close>:
  the second call removes exactly the stanza the first call wrote and writes it again at
  the same place.
\<close>

lemma updatedConfig_idempotent_clean:
  assumes h: "NL \<notin> set (host info)" "CHR ''$'' \<notin> set (host info)"
    and u: "NL \<notin> set (user info)" "CHR ''$'' \<notin> set (user info)"
    and i: "\<forall>f. identityFile info = Some f \<longrightarrow> NL \<notin> set f \<and> CHR ''$'' \<notin> set f"
    and x: "\<not> sublist (''Host '' @ generateSSHConfigAlias info) x"
    and m: "\<forall>pre post. findFirst marker x = Some (pre, post) \<longrightarrow> bodyLine post = None"
  shows "updatedConfig info (updatedConfig info x) = updatedConfig info x"
proof -
  define al where "al = generateSSHConfigAlias info"
  let ?pat = "''Host '' @ al"
  let ?T = "marker @ NL # newEntry al info"
  have ac: "\<forall>c \<in> set al. c \<noteq> NL \<and> c \<noteq> CHR ''$''"
    using alias_chars [of info] plain_chars by (auto simp: al_def list_all_iff)
  then have nl: "NL \<notin> set al" and nd: "CHR ''$'' \<notin> set al" by blast+
  from i have i1: "\<forall>f. identityFile info = Some f \<longrightarrow> NL \<notin> set f"
    and i2: "\<forall>f. identityFile info = Some f \<longrightarrow> CHR ''$'' \<notin> set f" by blast+
  from newEntry_split [OF h(1) u(1) i1, of al] obtain ls where
    e: "newEntry al info = ?pat @ NL # concat (map (\<lambda>l. l @ [NL]) ls)"
    and ls: "\<forall>l \<in> set ls. \<exists>c cs. l = CHR '' '' # CHR '' '' # c # cs \<and> c \<noteq> NL \<and> NL \<notin> set cs"
    by blast
  have T: "getSubstitution marker a b ?T = ?T" for a b
    using newEntry_nodollar [OF nd h(2) u(2) i2] by (rule getSubstitution_plain)
  have x': "\<not> sublist ?pat x" using x by (simp add: al_def)
  have nt: "\<not> entryRegexTest al x"
    using x' lineMatches_sublist [of ?pat True x] by (auto simp: entryRegexTest_def)
  have upd: "updatedConfig info z =
      (let z' = (if entryRegexTest al z then removeMatches al z else z)
       in if sublist marker z' then replaceFirst marker ?T z'
          else trimEnd z' @ [NL, NL] @ ?T)" for z
    unfolding updatedConfig_def Let_def al_def by simp
  have test: "entryRegexTest al (A @ NL # newEntry al info @ post)" for A post
    unfolding entryRegexTest_def e using lineMatches_found [of ?pat True A] by simp
  have mnl: "NL \<notin> set marker" by (simp add: marker_def)
  have mne: "marker \<noteq> []" by (simp add: marker_def)
  show ?thesis
  proof (cases "findFirst marker x")
    case (Some pp)
    obtain pre post where pp: "pp = (pre, post)" by (cases pp) auto
    with Some have f: "findFirst marker x = Some (pre, post)" by simp
    from findFirst_Some [OF f] have xs: "x = pre @ marker @ post" .
    have sm: "sublist marker x" unfolding xs by simp
    from m f have bp: "bodyLine post = None" by blast
    have y: "updatedConfig info x = (pre @ marker) @ NL # newEntry al info @ post"
      using nt sm f T by (simp add: upd replaceFirst_def)
    have A: "\<not> sublist ?pat (pre @ marker)"
    proof
      assume "sublist ?pat (pre @ marker)"
      moreover have "sublist (pre @ marker) x" unfolding xs by (metis append_assoc sublist_append_rightI)
      ultimately have "sublist ?pat x" by (rule sublist_order.order_trans)
      with x' show False by blast
    qed
    have P: "\<not> sublist ?pat post"
    proof
      assume "sublist ?pat post"
      moreover have "sublist post x" unfolding xs by (metis append_assoc sublist_append_leftI)
      ultimately have "sublist ?pat x" by (rule sublist_order.order_trans)
      with x' show False by blast
    qed
    have "removeMatches al ((pre @ marker) @ NL # newEntry al info @ post) = (pre @ marker) @ post"
      unfolding e by (rule removeMatches_entry [OF nl A ls bp P])
    then have "updatedConfig info ((pre @ marker) @ NL # newEntry al info @ post)
                 = replaceFirst marker ?T x"
      using test [of "pre @ marker" post] sm by (simp add: upd xs)
    also have "\<dots> = (pre @ marker) @ NL # newEntry al info @ post"
      using f T by (simp add: replaceFirst_def)
    finally show ?thesis unfolding y .
  next
    case None
    then have nm: "\<not> sublist marker x" by (rule findFirst_None)
    let ?t = "trimEnd x"
    let ?A = "?t @ [NL, NL] @ marker"
    have y: "updatedConfig info x = ?A @ NL # newEntry al info @ []"
      using nt nm by (simp add: upd)
    have tp: "sublist ?t x" using trimEnd_prefix [of x] by (rule prefix_imp_sublist)
    have A: "\<not> sublist ?pat ?A"
    proof
      assume "sublist ?pat ?A"
      then have "sublist ?pat (?t @ NL # (NL # marker))" by simp
      with nl have "sublist ?pat ?t \<or> sublist ?pat (NL # marker)"
        using sublist_across_NL [of ?pat ?t "NL # marker"] by simp
      then show False
      proof
        assume "sublist ?pat ?t"
        then have "sublist ?pat x" using tp by (rule sublist_order.order_trans)
        with x' show False by blast
      next
        assume "sublist ?pat (NL # marker)"
        then have "sublist ?pat ([] @ NL # marker)" by simp
        with nl have "sublist ?pat [] \<or> sublist ?pat marker"
          using sublist_across_NL [of ?pat "[]" marker] by simp
        then have "sublist ?pat marker" by simp
        moreover have "sublist ''Host '' ?pat" by (rule sublist_append_rightI)
        ultimately have "sublist ''Host '' marker" by (rule sublist_order.order_trans [rotated])
        moreover have "\<not> sublist ''Host '' marker" by code_simp
        ultimately show False by blast
      qed
    qed
    have "removeMatches al (?A @ NL # (?pat @ NL # concat (map (\<lambda>l. l @ [NL]) ls)) @ []) = ?A @ []"
      by (rule removeMatches_entry [OF nl A ls]) (simp_all add: bodyLine_def)
    then have r: "removeMatches al (?A @ NL # newEntry al info @ []) = ?A" by (simp add: e)
    have first: "findFirst marker ((?t @ [NL, NL]) @ marker @ []) = Some (?t @ [NL, NL], [])"
    proof (rule findFirst_at, intro allI impI)
      fix k assume k: "k < length (?t @ [NL, NL])"
      show "\<not> prefix marker (drop k ((?t @ [NL, NL]) @ marker @ []))"
      proof
        assume p: "prefix marker (drop k ((?t @ [NL, NL]) @ marker @ []))"
        show False
        proof (cases "k < length ?t")
          case True
          with p have "prefix marker (drop k ?t @ NL # (NL # marker))" by simp
          with mnl have "prefix marker (drop k ?t)" by (rule prefix_before_NL)
          then have "sublist marker ?t" by (rule prefix_drop_sublist)
          then have "sublist marker x" using tp by (rule sublist_order.order_trans)
          with nm show False by blast
        next
          case False
          with k have "k = length ?t \<or> k = Suc (length ?t)" by auto
          with p have "prefix marker ([] @ NL # (NL # marker)) \<or> prefix marker ([] @ NL # marker)"
            by auto
          with mnl have "prefix marker []" using prefix_before_NL by blast
          with mne show False by simp
        qed
      qed
    qed
    have sA: "sublist marker ?A"
      using sublist_append_leftI [of marker "?t @ [NL, NL]"] by simp
    have "updatedConfig info (?A @ NL # newEntry al info @ []) = replaceFirst marker ?T ?A"
      using test [of ?A "[]"] sA r by (simp add: upd)
    also have "\<dots> = ?A @ NL # newEntry al info @ []"
      using first T by (simp add: replaceFirst_def)
    finally show ?thesis unfolding y .
  qed
qed


text \<open>
  Claim C2, at two inputs. The claim is that writing the entry twice gives the text that
  writing it once gives, and that the text never has two lines \<open>Host <alias>\<close>. For the
  vessel \<open>Web\<close> of the fleet \<open>Prod\<close> and the config \<open>commentedConfig\<close>, the first call inserts the
  entry after the marker; the second call finds the line \<open>Host SSHarbor_Prod_Web\<close> it has
  just written, and its removal pattern, which is not anchored to the start of a line,
  also deletes \<open>Host SSHarbor_Prod_Web\<close> and the newline after it from inside the
  comment line: the second text differs from the first. For a config that ends in the line
  \<open>Host SSHarbor_Prod_Web\<close> with no newline after it, the test for an existing entry
  succeeds, the removal pattern needs the newline and deletes nothing, and the text
  written has two such lines.
\<close>

theorem updatedConfig_not_idempotent:
  "ensureSSHConfigEntry webInfo (Some commentedConfig)
     = (''SSHarbor_Prod_Web'',
        ''# === SSHarbor Managed Entries ===\<newline>Host SSHarbor_Prod_Web\<newline>  HostName 10.0.0.5\<newline>  User deploy\<newline>\<newline>#Host SSHarbor_Prod_Web\<newline>#  HostName 10.0.0.4\<newline>'')
   \<and> ensureSSHConfigEntry webInfo (Some (snd (ensureSSHConfigEntry webInfo (Some commentedConfig))))
     = (''SSHarbor_Prod_Web'',
        ''# === SSHarbor Managed Entries ===\<newline>Host SSHarbor_Prod_Web\<newline>  HostName 10.0.0.5\<newline>  User deploy\<newline>\<newline>##  HostName 10.0.0.4\<newline>'')
   \<and> updatedConfig webInfo (updatedConfig webInfo commentedConfig)
       \<noteq> updatedConfig webInfo commentedConfig
   \<and> ensureSSHConfigEntry webInfo (Some ''Host SSHarbor_Prod_Web'')
     = (''SSHarbor_Prod_Web'',
        ''Host SSHarbor_Prod_Web\<newline>\<newline># === SSHarbor Managed Entries ===\<newline>Host SSHarbor_Prod_Web\<newline>  HostName 10.0.0.5\<newline>  User deploy\<newline>'')
   \<and> length (filter (\<lambda>l. l = ''Host SSHarbor_Prod_Web'')
                (splitOn NL (updatedConfig webInfo ''Host SSHarbor_Prod_Web''))) = 2"
  by code_simp

end
